theory Spec2Isabelle
  imports Complex_Main "HOL-Library.Word"
begin

section \<open>Data model (types.ts)\<close>

text \<open>
  A JavaScript string is a sequence of 16-bit code units. Node identifiers are only
  compared for equality and ordered by \<^verbatim>\<open>localeCompare\<close>; edge labels are trimmed.

  JavaScript numbers are IEEE doubles. Every number \<^verbatim>\<open>computeLayout\<close> computes is an
  integer far below \<open>2 ^ 53\<close> (a level is at most the number of nodes, a coordinate
  at most \<open>280\<close> times the number of nodes plus \<open>160\<close>, and
  \<open>maxRowWidth - rowWidth\<close> is even), so the arithmetic is exact: levels are
  \<^typ>\<open>nat\<close> and coordinates are \<^typ>\<open>real\<close>.

  An optional field (\<^verbatim>\<open>x?: number\<close>) is an \<^typ>\<open>'a option\<close>, \<open>None\<close> for
  \<^verbatim>\<open>undefined\<close>.
\<close>

type_synonym code_unit = "16 word"
type_synonym jsstring = "code_unit list"

datatype NodeShape = RECTANGLE | DIAMOND | PILL | PARALLELOGRAM

datatype LayoutDirection = TOP_BOTTOM | ZIG_ZAG

record FlowchartNode =
  node_id :: jsstring
  node_label :: jsstring
  node_shape :: NodeShape
  node_x :: "real option"
  node_y :: "real option"
  node_level :: "nat option"

record FlowchartEdge =
  edge_source :: jsstring
  edge_target :: jsstring
  edge_label :: "jsstring option"

record FlowchartData =
  data_nodes :: "FlowchartNode list"
  data_edges :: "FlowchartEdge list"

text \<open>String literals of the examples: the code units of an ASCII text.\<close>

definition js :: "string \<Rightarrow> jsstring" where
  "js s = map of_char s"

section \<open>Constants (layoutUtils.ts, lines 3 to 8)\<close>

definition NODE_WIDTH :: real where "NODE_WIDTH = 220"
definition NODE_HEIGHT :: real where "NODE_HEIGHT = 140"
definition X_GAP :: real where "X_GAP = 60"
definition Y_GAP :: real where "Y_GAP = 100"
definition CANVAS_PADDING :: real where "CANVAS_PADDING = 50"
definition SNAKE_COLUMNS :: nat where "SNAKE_COLUMNS = 4"

section \<open>Sanitization (lines 15 to 38)\<close>

text \<open>
  \<^verbatim>\<open>String.prototype.trim\<close> removes, at both ends, the code units of ECMAScript's
  WhiteSpace and LineTerminator productions: TAB, LF, VT, FF, CR, SP, NBSP, the other
  space separators of Unicode (U+1680, U+2000 to U+200A, U+202F, U+205F, U+3000), LS, PS
  and the byte order mark U+FEFF.
\<close>

definition isWhiteSpace :: "code_unit \<Rightarrow> bool" where
  "isWhiteSpace c \<longleftrightarrow>
     c \<in> {0x9, 0xA, 0xB, 0xC, 0xD, 0x20, 0xA0, 0x1680, 0x2028, 0x2029, 0x202F, 0x205F,
          0x3000, 0xFEFF}
     \<or> (0x2000 \<le> c \<and> c \<le> 0x200A)"

definition trim :: "jsstring \<Rightarrow> jsstring" where
  "trim s = rev (dropWhile isWhiteSpace (rev (dropWhile isWhiteSpace s)))"

text \<open>
  The callback's result \<^verbatim>\<open>e.label && e.label.trim().length > 0\<close>, read as a truth
  value by \<^verbatim>\<open>filter\<close>: an absent label and the empty string are falsy.
\<close>

definition hasLabel :: "FlowchartEdge \<Rightarrow> bool" where
  "hasLabel e =
     (case edge_label e of
        None \<Rightarrow> False
      | Some l \<Rightarrow> l \<noteq> [] \<and> 0 < length (trim l))"

definition sanitizeEdges :: "FlowchartNode list \<Rightarrow> FlowchartEdge list \<Rightarrow> FlowchartEdge list" where
  "sanitizeEdges nodes edges =
     (let nodeIds = set (map node_id nodes);
          edges1 = filter (\<lambda>e. edge_source e \<in> nodeIds \<and> edge_target e \<in> nodeIds) edges;
          edges2 = filter (\<lambda>e. edge_source e \<noteq> edge_target e) edges1;
          diamondNodeIds = set (map node_id (filter (\<lambda>n. node_shape n = DIAMOND) nodes))
      in filter (\<lambda>e. if edge_source e \<in> diamondNodeIds then hasLabel e else True) edges2)"

section \<open>Level assignment (lines 40 to 82)\<close>

text \<open>
  The nodes are objects, mutated in place, and \<^verbatim>\<open>nodeMap\<close> holds references to them.
  Here the node array is a list, an object is named by its position in the list (the
  array holds each object once: it is parsed from the generator's JSON reply), and
  \<^verbatim>\<open>nodeMap\<close> maps an identifier to the position of the node it holds: the last node of
  the array with that identifier, since \<^verbatim>\<open>Map.set\<close> overwrites.
\<close>

fun indexNodes :: "nat \<Rightarrow> FlowchartNode list \<Rightarrow> (jsstring \<rightharpoonup> nat) \<Rightarrow> (jsstring \<rightharpoonup> nat)" where
  "indexNodes i [] m = m"
| "indexNodes i (n # ns) m = indexNodes (Suc i) ns (m(node_id n \<mapsto> i))"

definition resetLevels :: "FlowchartNode list \<Rightarrow> FlowchartNode list" where
  "resetLevels nodes = map (\<lambda>n. n\<lparr>node_level := Some 0\<rparr>) nodes"

text \<open>\<^verbatim>\<open>node.level || 0\<close>\<close>

definition levelOr0 :: "FlowchartNode \<Rightarrow> nat" where
  "levelOr0 n = (case node_level n of None \<Rightarrow> 0 | Some l \<Rightarrow> l)"

text \<open>
  \<^verbatim>\<open>nodes.find(n => !targets.has(n.id))?.id || nodes[0].id\<close>: the operator
  \<^verbatim>\<open>||\<close> takes its right operand when the left one is \<^verbatim>\<open>undefined\<close> (no node found)
  and also when it is the empty string. The function is called on a non-empty array only
  (line 13 returns before).
\<close>

definition startNodeId :: "FlowchartNode list \<Rightarrow> FlowchartEdge list \<Rightarrow> jsstring" where
  "startNodeId nodes edges =
     (let targets = set (map edge_target edges)
      in case find (\<lambda>n. node_id n \<notin> targets) nodes of
           None \<Rightarrow> node_id (hd nodes)
         | Some n \<Rightarrow> if node_id n \<noteq> [] then node_id n else node_id (hd nodes))"

text \<open>Lines 57 to 61: the level of the dequeued node.\<close>

definition setLevel ::
  "(jsstring \<rightharpoonup> nat) \<Rightarrow> jsstring \<Rightarrow> nat \<Rightarrow> FlowchartNode list \<Rightarrow> FlowchartNode list" where
  "setLevel nodeMap nid level nodes =
     (case nodeMap nid of
        None \<Rightarrow> nodes
      | Some i \<Rightarrow> nodes[i := (nodes ! i)\<lparr>node_level := Some (max (levelOr0 (nodes ! i)) level)\<rparr>])"

text \<open>
  Lines 65 to 81, the body of \<^verbatim>\<open>outgoingEdges.forEach\<close>: the state is the visited set
  and the queue. The \<^verbatim>\<open>else\<close> branch of the source has an empty body.
\<close>

definition visitEdge ::
  "nat \<Rightarrow> jsstring set \<times> (jsstring \<times> nat) list \<Rightarrow> FlowchartEdge
     \<Rightarrow> jsstring set \<times> (jsstring \<times> nat) list" where
  "visitEdge level s edge =
     (case s of (visited, queue) \<Rightarrow>
        if edge_target edge \<notin> visited
        then (insert (edge_target edge) visited, queue @ [(edge_target edge, level + 1)])
        else (visited, queue))"

lemma visitEdge_measure:
  assumes "edge_target e \<in> T" and "finite T" and "visitEdge l (v, q) e = (v', q')"
  shows "card (T - v') + length q' = card (T - v) + length q"
proof (cases "edge_target e \<in> v")
  case True
  with assms show ?thesis by (simp add: visitEdge_def)
next
  case False
  with assms have v': "v' = insert (edge_target e) v" and q': "q' = q @ [(edge_target e, l + 1)]"
    by (auto simp: visitEdge_def)
  from False assms have "edge_target e \<in> T - v" by simp
  moreover have "T - v' = (T - v) - {edge_target e}" using v' by auto
  moreover have "finite (T - v)" using assms by simp
  ultimately have "card (T - v') = card (T - v) - 1" and "0 < card (T - v)"
    by (auto simp: card_gt_0_iff)
  with q' show ?thesis by simp
qed

lemma foldl_visitEdge_measure:
  assumes "edge_target ` set es \<subseteq> T" and "finite T"
    and "foldl (visitEdge l) (v, q) es = (v', q')"
  shows "card (T - v') + length q' = card (T - v) + length q"
  using assms
proof (induction es arbitrary: v q)
  case Nil
  then show ?case by simp
next
  case (Cons e es)
  obtain v1 q1 where step: "visitEdge l (v, q) e = (v1, q1)" by (cases "visitEdge l (v, q) e")
  from Cons.prems have "edge_target e \<in> T" by simp
  from visitEdge_measure [OF this Cons.prems(2) step]
  have "card (T - v1) + length q1 = card (T - v) + length q" .
  moreover from Cons.prems step have "foldl (visitEdge l) (v1, q1) es = (v', q')" by simp
  from Cons.IH [OF _ Cons.prems(2) this] Cons.prems(1)
  have "card (T - v') + length q' = card (T - v1) + length q1" by simp
  ultimately show ?case by simp
qed

text \<open>
  Lines 55 to 82, the \<^verbatim>\<open>while\<close> loop. The state is the queue, the visited set and the
  node array. Every turn removes one queue entry and adds one entry for each identifier
  it adds to the visited set, which holds ever more of the edges' targets: the loop ends.
\<close>

function bfsLoop ::
  "FlowchartEdge list \<Rightarrow> (jsstring \<rightharpoonup> nat)
     \<Rightarrow> (jsstring \<times> nat) list \<times> jsstring set \<times> FlowchartNode list
     \<Rightarrow> (jsstring \<times> nat) list \<times> jsstring set \<times> FlowchartNode list" where
  "bfsLoop edges nodeMap ([], visited, nodes) = ([], visited, nodes)"
| "bfsLoop edges nodeMap ((nid, level) # rest, visited, nodes) =
     (let nodes' = setLevel nodeMap nid level nodes;
          outgoingEdges = filter (\<lambda>e. edge_source e = nid) edges;
          (visited', queue') = foldl (visitEdge level) (visited, rest) outgoingEdges
      in bfsLoop edges nodeMap (queue', visited', nodes'))"
  by pat_completeness auto
termination
  apply (relation "measure (\<lambda>(edges, nodeMap, queue, visited, nodes).
         card (edge_target ` set edges - visited) + length queue)")
   apply simp
  apply (auto dest!: sym [of "(_, _)"])
  apply (drule foldl_visitEdge_measure [rotated 2, where T = "edge_target ` set edges" for edges])
  apply auto
  done

definition assignLevels :: "FlowchartNode list \<Rightarrow> FlowchartEdge list \<Rightarrow> FlowchartNode list" where
  "assignLevels nodes edges =
     (let nodes0 = resetLevels nodes;
          nodeMap = indexNodes 0 nodes0 Map.empty;
          start = startNodeId nodes0 edges
      in case bfsLoop edges nodeMap ([(start, 0)], {start}, nodes0) of
           (queue, visited, nodes') \<Rightarrow> nodes')"

text \<open>
  The same loop with a record of the discoveries: whenever the body of
  \<^verbatim>\<open>outgoingEdges.forEach\<close> adds the target of an edge to the visited set, the pair of the
  dequeued identifier and the target is appended to the record. The record is not read.
\<close>

definition visitEdgeT ::
  "jsstring \<Rightarrow> nat
     \<Rightarrow> (jsstring set \<times> (jsstring \<times> nat) list) \<times> (jsstring \<times> jsstring) list
     \<Rightarrow> FlowchartEdge
     \<Rightarrow> (jsstring set \<times> (jsstring \<times> nat) list) \<times> (jsstring \<times> jsstring) list" where
  "visitEdgeT nid level s edge =
     (case s of ((visited, queue), disc) \<Rightarrow>
        (visitEdge level (visited, queue) edge,
         if edge_target edge \<notin> visited then disc @ [(nid, edge_target edge)] else disc))"

lemma fst_visitEdgeT: "fst (visitEdgeT nid level (s, disc) e) = visitEdge level s e"
  by (cases s) (simp add: visitEdgeT_def)

lemma fst_foldl_visitEdgeT:
  "fst (foldl (visitEdgeT nid level) (s, disc) es) = foldl (visitEdge level) s es"
proof (induction es arbitrary: s disc)
  case Nil
  show ?case by simp
next
  case (Cons e es)
  obtain s1 d1 where 1: "visitEdgeT nid level (s, disc) e = (s1, d1)"
    by (cases "visitEdgeT nid level (s, disc) e")
  with fst_visitEdgeT [of nid level s disc e] have "s1 = visitEdge level s e"
    by simp
  with 1 Cons.IH [of s1 d1] show ?case
    by simp
qed

function bfsTrace ::
  "FlowchartEdge list \<Rightarrow> (jsstring \<rightharpoonup> nat)
     \<Rightarrow> ((jsstring \<times> nat) list \<times> jsstring set \<times> FlowchartNode list)
         \<times> (jsstring \<times> jsstring) list
     \<Rightarrow> ((jsstring \<times> nat) list \<times> jsstring set \<times> FlowchartNode list)
         \<times> (jsstring \<times> jsstring) list" where
  "bfsTrace edges nodeMap (([], visited, nodes), disc) = (([], visited, nodes), disc)"
| "bfsTrace edges nodeMap (((nid, level) # rest, visited, nodes), disc) =
     (let nodes' = setLevel nodeMap nid level nodes;
          outgoingEdges = filter (\<lambda>e. edge_source e = nid) edges;
          ((visited', queue'), disc') =
             foldl (visitEdgeT nid level) ((visited, rest), disc) outgoingEdges
      in bfsTrace edges nodeMap ((queue', visited', nodes'), disc'))"
  by pat_completeness auto
termination
proof (relation "measure (\<lambda>(edges, nodeMap, (queue, visited, nodes), disc).
         card (edge_target ` set edges - visited) + length queue)", goal_cases)
  case 1
  show ?case by simp
next
  case (2 edges nodeMap nid level rest visited nodes disc x xa xb xc y xd ya)
  then have "fst (foldl (visitEdgeT nid level) ((visited, rest), disc)
      (filter (\<lambda>e. edge_source e = nid) edges)) = (xd, ya)"
    by (metis fst_conv)
  then have f: "foldl (visitEdge level) (visited, rest) (filter (\<lambda>e. edge_source e = nid) edges)
      = (xd, ya)"
    by (simp only: fst_foldl_visitEdgeT)
  have "card (edge_target ` set edges - xd) + length ya
      = card (edge_target ` set edges - visited) + length rest"
    by (rule foldl_visitEdge_measure [OF _ _ f]) auto
  then show ?case by simp
qed

lemma bfsTrace_erase: "fst (bfsTrace es m (st, disc)) = bfsLoop es m st"
proof (induction es m st arbitrary: disc rule: bfsLoop.induct)
  case (1 edges nodeMap visited nodes)
  show ?case by simp
next
  case (2 edges nodeMap nid level rest visited nodes)
  obtain v' q' disc' where t:
    "foldl (visitEdgeT nid level) ((visited, rest), disc) (filter (\<lambda>e. edge_source e = nid) edges)
       = ((v', q'), disc')"
    by (metis surj_pair)
  then have "fst (foldl (visitEdgeT nid level) ((visited, rest), disc)
      (filter (\<lambda>e. edge_source e = nid) edges)) = (v', q')"
    by simp
  then have f: "foldl (visitEdge level) (visited, rest) (filter (\<lambda>e. edge_source e = nid) edges)
      = (v', q')"
    by (simp only: fst_foldl_visitEdgeT)
  from "2.IH" [OF refl refl refl f [symmetric], of disc'] t f show ?case
    by simp
qed

text \<open>The discoveries of the loop that \<open>assignLevels\<close> runs.\<close>

definition discoveries :: "FlowchartNode list \<Rightarrow> FlowchartEdge list \<Rightarrow> (jsstring \<times> jsstring) list" where
  "discoveries nodes edges =
     (let nodes0 = resetLevels nodes;
          nodeMap = indexNodes 0 nodes0 Map.empty;
          start = startNodeId nodes0 edges
      in snd (bfsTrace edges nodeMap (([(start, 0)], {start}, nodes0), [])))"

section \<open>Sorting (lines 84 to 90)\<close>

text \<open>
  \<^verbatim>\<open>localeCompare\<close> depends on the host's locale: it is the parameter \<open>lc\<close>, negative,
  zero or positive as the first string sorts before, with or after the second.

  \<^verbatim>\<open>Array.prototype.sort\<close> is stable and, with a consistent comparator, returns the one
  stable sorted arrangement, which insertion from the right computes. The sorted array
  holds references to the node objects: here, their positions in the node array.
\<close>

definition compareNodes ::
  "(jsstring \<Rightarrow> jsstring \<Rightarrow> int) \<Rightarrow> FlowchartNode \<Rightarrow> FlowchartNode \<Rightarrow> int" where
  "compareNodes lc a b =
     (let levA = levelOr0 a; levB = levelOr0 b
      in if levA \<noteq> levB then int levA - int levB else lc (node_id a) (node_id b))"

fun insertBy :: "('a \<Rightarrow> 'a \<Rightarrow> int) \<Rightarrow> 'a \<Rightarrow> 'a list \<Rightarrow> 'a list" where
  "insertBy cmp a [] = [a]"
| "insertBy cmp a (b # bs) = (if cmp a b \<le> 0 then a # b # bs else b # insertBy cmp a bs)"

definition sortBy :: "('a \<Rightarrow> 'a \<Rightarrow> int) \<Rightarrow> 'a list \<Rightarrow> 'a list" where
  "sortBy cmp as = foldr (insertBy cmp) as []"

definition sortedNodes :: "(jsstring \<Rightarrow> jsstring \<Rightarrow> int) \<Rightarrow> FlowchartNode list \<Rightarrow> nat list" where
  "sortedNodes lc nodes =
     sortBy (\<lambda>i j. compareNodes lc (nodes ! i) (nodes ! j)) [0..<length nodes]"

section \<open>Coordinates (lines 92 to 138)\<close>

definition setXY :: "nat \<Rightarrow> real \<Rightarrow> real \<Rightarrow> FlowchartNode list \<Rightarrow> FlowchartNode list" where
  "setXY i px py nodes = nodes[i := (nodes ! i)\<lparr>node_x := Some px, node_y := Some py\<rparr>]"

text \<open>Lines 97 to 105: the grid cell of the node at \<open>index\<close> of the sorted array.\<close>

definition snakeRow :: "nat \<Rightarrow> nat" where
  "snakeRow index = index div SNAKE_COLUMNS"

definition snakeCol :: "nat \<Rightarrow> nat" where
  "snakeCol index =
     (let row = index div SNAKE_COLUMNS; col = index mod SNAKE_COLUMNS
      in if row mod 2 \<noteq> 0 then SNAKE_COLUMNS - 1 - col else col)"

text \<open>Lines 96 to 109: \<^verbatim>\<open>sortedNodes.forEach((node, index) => ...)\<close>.\<close>

fun placeSnake :: "nat \<Rightarrow> nat list \<Rightarrow> FlowchartNode list \<Rightarrow> FlowchartNode list" where
  "placeSnake index [] nodes = nodes"
| "placeSnake index (i # rest) nodes =
     placeSnake (Suc index) rest
       (setXY i
          (real (snakeCol index) * (NODE_WIDTH + X_GAP) + CANVAS_PADDING + NODE_WIDTH / 2)
          (real (snakeRow index) * (NODE_HEIGHT + Y_GAP) + CANVAS_PADDING + NODE_HEIGHT / 2)
          nodes)"

text \<open>
  Lines 113 to 121: \<^verbatim>\<open>levels\<close> is a \<^verbatim>\<open>Map\<close>, iterated in the order its keys were first
  set: an association list in that order, each level with the positions of its nodes.
  (\<^verbatim>\<open>maxLevel\<close> is computed and never read.)
\<close>

fun pushLevel :: "nat \<Rightarrow> nat \<Rightarrow> (nat \<times> nat list) list \<Rightarrow> (nat \<times> nat list) list" where
  "pushLevel lvl i [] = [(lvl, [i])]"
| "pushLevel lvl i ((k, g) # rest) =
     (if k = lvl then (k, g @ [i]) # rest else (k, g) # pushLevel lvl i rest)"

definition groupLevels :: "FlowchartNode list \<Rightarrow> nat list \<Rightarrow> (nat \<times> nat list) list" where
  "groupLevels nodes sortedIdx =
     foldl (\<lambda>levels i. pushLevel (levelOr0 (nodes ! i)) i levels) [] sortedIdx"

text \<open>Lines 124 to 127.\<close>

definition maxRowWidth :: "(nat \<times> nat list) list \<Rightarrow> real" where
  "maxRowWidth levels =
     foldl (\<lambda>m (level, nodesInLevel). max m (real (length nodesInLevel) * (NODE_WIDTH + X_GAP)))
       0 levels"

text \<open>Lines 133 to 136: \<^verbatim>\<open>nodesInLevel.forEach((node, index) => ...)\<close>.\<close>

fun placeRow :: "real \<Rightarrow> nat \<Rightarrow> nat \<Rightarrow> nat list \<Rightarrow> FlowchartNode list \<Rightarrow> FlowchartNode list" where
  "placeRow startX level index [] nodes = nodes"
| "placeRow startX level index (i # rest) nodes =
     placeRow startX level (Suc index) rest
       (setXY i
          (startX + real index * (NODE_WIDTH + X_GAP) + NODE_WIDTH / 2)
          (real level * (NODE_HEIGHT + Y_GAP) + CANVAS_PADDING + NODE_HEIGHT / 2)
          nodes)"

text \<open>Lines 129 to 137: \<^verbatim>\<open>levels.forEach((nodesInLevel, level) => ...)\<close>.\<close>

fun placeRows :: "real \<Rightarrow> (nat \<times> nat list) list \<Rightarrow> FlowchartNode list \<Rightarrow> FlowchartNode list" where
  "placeRows maxW [] nodes = nodes"
| "placeRows maxW ((level, nodesInLevel) # rest) nodes =
     (let rowWidth = real (length nodesInLevel) * (NODE_WIDTH + X_GAP) - X_GAP;
          startX = (maxW - rowWidth) / 2 + CANVAS_PADDING
      in placeRows maxW rest (placeRow startX level 0 nodesInLevel nodes))"

definition placeTopBottom :: "nat list \<Rightarrow> FlowchartNode list \<Rightarrow> FlowchartNode list" where
  "placeTopBottom sortedIdx nodes =
     (let levels = groupLevels nodes sortedIdx
      in placeRows (maxRowWidth levels) levels nodes)"

definition applyLayout ::
  "(jsstring \<Rightarrow> jsstring \<Rightarrow> int) \<Rightarrow> LayoutDirection \<Rightarrow> FlowchartNode list \<Rightarrow> FlowchartNode list" where
  "applyLayout lc direction nodes =
     (let sortedIdx = sortedNodes lc nodes
      in if direction = ZIG_ZAG then placeSnake 0 sortedIdx nodes
         else placeTopBottom sortedIdx nodes)"

section \<open>computeLayout (lines 10 to 141)\<close>

text \<open>
  The function mutates its argument (the nodes, and \<^verbatim>\<open>data.edges\<close> on line 37) and
  returns a new object with the same node array and the sanitized edges: the value
  returned here. Every caller passes the direction; the \<^verbatim>\<open>else\<close> branch of line 110 is
  the direction top-bottom.
\<close>

definition computeLayout ::
  "(jsstring \<Rightarrow> jsstring \<Rightarrow> int) \<Rightarrow> FlowchartData \<Rightarrow> LayoutDirection \<Rightarrow> FlowchartData" where
  "computeLayout lc data direction =
     (if length (data_nodes data) = 0 then data
      else
        let edges = sanitizeEdges (data_nodes data) (data_edges data);
            nodes = assignLevels (data_nodes data) edges
        in \<lparr>data_nodes = applyLayout lc direction nodes, data_edges = edges\<rparr>)"

text \<open>
  A comparator for the examples: code units compared one by one, a proper prefix first.
\<close>

fun codeUnitCompare :: "jsstring \<Rightarrow> jsstring \<Rightarrow> int" where
  "codeUnitCompare [] [] = 0"
| "codeUnitCompare [] (b # bs) = - 1"
| "codeUnitCompare (a # as) [] = 1"
| "codeUnitCompare (a # as) (b # bs) =
     (if a < b then - 1 else if b < a then 1 else codeUnitCompare as bs)"

definition mkNode :: "string \<Rightarrow> NodeShape \<Rightarrow> FlowchartNode" where
  "mkNode i s = \<lparr>node_id = js i, node_label = js i, node_shape = s,
                node_x = None, node_y = None, node_level = None\<rparr>"

definition mkEdge :: "string \<Rightarrow> string \<Rightarrow> string option \<Rightarrow> FlowchartEdge" where
  "mkEdge s t l = \<lparr>edge_source = js s, edge_target = js t, edge_label = map_option js l\<rparr>"

section \<open>The properties, in the specification's words\<close>

text \<open>
  The three filters of the specification, each read on the input edge and the input
  nodes alone: (i) both ends are identifiers of nodes, (ii) the ends differ, (iii) when
  a node with the source's identifier is a decision, the edge has a label whose trimmed
  length is positive.
\<close>

definition keepsEdge :: "FlowchartNode list \<Rightarrow> FlowchartEdge \<Rightarrow> bool" where
  "keepsEdge nodes e \<longleftrightarrow>
     (edge_source e \<in> node_id ` set nodes \<and> edge_target e \<in> node_id ` set nodes)
     \<and> edge_source e \<noteq> edge_target e
     \<and> ((\<exists>n \<in> set nodes. node_id n = edge_source e \<and> node_shape n = DIAMOND)
          \<longrightarrow> (case edge_label e of None \<Rightarrow> False | Some l \<Rightarrow> 0 < length (trim l)))"

text \<open>
  What \<open>computeLayout\<close> must leave alone in a node: its identifier, its label and its
  shape.
\<close>

definition frame :: "FlowchartNode \<Rightarrow> jsstring \<times> jsstring \<times> NodeShape" where
  "frame n = (node_id n, node_label n, node_shape n)"

text \<open>
  The nodes of level \<open>l\<close>, in the order of the sorted array, and the width of the widest
  row: the largest \<open>count * (NODE_WIDTH + X_GAP)\<close> over the levels that occur.
\<close>

definition levelGroup :: "FlowchartNode list \<Rightarrow> nat list \<Rightarrow> nat \<Rightarrow> nat list" where
  "levelGroup nodes sortedIdx l = filter (\<lambda>i. levelOr0 (nodes ! i) = l) sortedIdx"

definition widestRow :: "FlowchartNode list \<Rightarrow> nat list \<Rightarrow> real" where
  "widestRow nodes sortedIdx =
     Max ((\<lambda>l. real (length (levelGroup nodes sortedIdx l)) * (220 + 60)) ` levelOr0 ` set nodes)"

text \<open>
  A consistent comparator, as \<^verbatim>\<open>localeCompare\<close> is: any two strings are comparable, and
  the order is transitive.
\<close>

definition consistentComparator :: "(jsstring \<Rightarrow> jsstring \<Rightarrow> int) \<Rightarrow> bool" where
  "consistentComparator lc \<longleftrightarrow>
     (\<forall>a b. lc a b \<le> 0 \<or> lc b a \<le> 0)
     \<and> (\<forall>a b c. lc a b \<le> 0 \<longrightarrow> lc b c \<le> 0 \<longrightarrow> lc a c \<le> 0)"

text \<open>
  A sequence of positions of the node array in ascending order of level, and of
  identifier within a level.
\<close>

definition levelIdSorted ::
  "(jsstring \<Rightarrow> jsstring \<Rightarrow> int) \<Rightarrow> FlowchartNode list \<Rightarrow> nat list \<Rightarrow> bool" where
  "levelIdSorted lc nodes sq \<longleftrightarrow>
     sorted_wrt
       (\<lambda>p q. levelOr0 (nodes ! p) < levelOr0 (nodes ! q)
            \<or> (levelOr0 (nodes ! p) = levelOr0 (nodes ! q)
               \<and> lc (node_id (nodes ! p)) (node_id (nodes ! q)) \<le> 0))
       sq"

text \<open>The edges as pairs of identifiers.\<close>

definition edgeRel :: "FlowchartEdge list \<Rightarrow> (jsstring \<times> jsstring) set" where
  "edgeRel es = set (map (\<lambda>e. (edge_source e, edge_target e)) es)"

text \<open>A path of edges leads from \<open>a\<close> to \<open>b\<close>; the empty path leads from a node to itself.\<close>

definition reachable :: "FlowchartEdge list \<Rightarrow> jsstring \<Rightarrow> jsstring \<Rightarrow> bool" where
  "reachable es a b \<longleftrightarrow> a = b \<or> (a, b) \<in> (edgeRel es)\<^sup>+"

text \<open>The root that \<open>computeLayout\<close> starts the traversal from.\<close>

definition bfsRoot :: "FlowchartData \<Rightarrow> jsstring" where
  "bfsRoot data =
     startNodeId (resetLevels (data_nodes data))
       (sanitizeEdges (data_nodes data) (data_edges data))"

text \<open>
  The discovering edges of the traversal that \<open>computeLayout\<close> runs: none when the graph
  has no node, since line 13 returns before the traversal.
\<close>

definition discoveringEdges :: "FlowchartData \<Rightarrow> (jsstring \<times> jsstring) list" where
  "discoveringEdges data =
     (if length (data_nodes data) = 0 then []
      else discoveries (data_nodes data) (sanitizeEdges (data_nodes data) (data_edges data)))"

text \<open>
  The level of the node with an identifier (of the last one in the array, should several
  nodes have it).
\<close>

definition levelOf :: "FlowchartNode list \<Rightarrow> jsstring \<Rightarrow> nat option" where
  "levelOf nodes nid =
     (case indexNodes 0 nodes Map.empty nid of None \<Rightarrow> None | Some i \<Rightarrow> node_level (nodes ! i))"

section \<open>Example graphs\<close>

text \<open>
  Scenario A of the specification, with three more edges: one to an identifier that no
  node has, a self-loop, and an edge out of the decision whose label is blank.
\<close>

definition scenarioA :: FlowchartData where
  "scenarioA =
     \<lparr>data_nodes = [mkNode ''S'' PILL, mkNode ''A'' RECTANGLE, mkNode ''B'' DIAMOND,
                    mkNode ''C'' RECTANGLE, mkNode ''D'' RECTANGLE, mkNode ''E'' PILL],
      data_edges = [mkEdge ''S'' ''A'' None, mkEdge ''A'' ''B'' None,
                    mkEdge ''B'' ''C'' (Some ''Yes''), mkEdge ''B'' ''D'' (Some ''No''),
                    mkEdge ''B'' ''E'' None, mkEdge ''A'' ''node99'' None,
                    mkEdge ''C'' ''C'' None, mkEdge ''B'' ''S'' (Some ''  '')]\<rparr>"

definition noNodes :: FlowchartData where
  "noNodes =
     \<lparr>data_nodes = [], data_edges = [mkEdge ''A'' ''A'' None, mkEdge ''A'' ''node99'' None]\<rparr>"

text \<open>Scenario B of the specification: a chain of nine nodes.\<close>

definition chain9 :: FlowchartData where
  "chain9 =
     \<lparr>data_nodes = map (\<lambda>i. mkNode i RECTANGLE)
                     [''n1'', ''n2'', ''n3'', ''n4'', ''n5'', ''n6'', ''n7'', ''n8'', ''n9''],
      data_edges = [mkEdge ''n1'' ''n2'' None, mkEdge ''n2'' ''n3'' None,
                    mkEdge ''n3'' ''n4'' None, mkEdge ''n4'' ''n5'' None,
                    mkEdge ''n5'' ''n6'' None, mkEdge ''n6'' ''n7'' None,
                    mkEdge ''n7'' ''n8'' None, mkEdge ''n8'' ''n9'' None]\<rparr>"

text \<open>
  Three nodes listed out of their order: the root \<open>r\<close> is the second one, and the
  first one, \<open>m\<close>, has level 1.
\<close>

definition listedOutOfOrder :: FlowchartData where
  "listedOutOfOrder =
     \<lparr>data_nodes = [mkNode ''m'' RECTANGLE, mkNode ''r'' PILL, mkNode ''k'' RECTANGLE],
      data_edges = [mkEdge ''r'' ''m'' None, mkEdge ''m'' ''k'' None]\<rparr>"

text \<open>
  A decision whose only outgoing edge has no label: the edge is dropped, and with it the
  only edge into \<open>X\<close>.
\<close>

definition ghostEdgeGraph :: FlowchartData where
  "ghostEdgeGraph =
     \<lparr>data_nodes = [mkNode ''A'' RECTANGLE, mkNode ''D'' DIAMOND, mkNode ''X'' RECTANGLE],
      data_edges = [mkEdge ''X'' ''A'' None, mkEdge ''A'' ''D'' None, mkEdge ''D'' ''X'' None]\<rparr>"

text \<open>A node whose identifier is the empty string, and an edge from it to the first node.\<close>

definition emptyIdGraph :: FlowchartData where
  "emptyIdGraph =
     \<lparr>data_nodes = [mkNode ''a'' RECTANGLE, mkNode '''' RECTANGLE],
      data_edges = [mkEdge '''' ''a'' None]\<rparr>"

section \<open>Sanitization\<close>

lemma trim_Nil: "trim [] = []"
  by (simp add: trim_def)

lemma hasLabel_iff:
  "hasLabel e \<longleftrightarrow> (case edge_label e of None \<Rightarrow> False | Some l \<Rightarrow> 0 < length (trim l))"
  by (cases "edge_label e") (auto simp: hasLabel_def trim_Nil)

lemma sanitizeEdges_keepsEdge: "sanitizeEdges nodes edges = filter (keepsEdge nodes) edges"
proof -
  have "(\<exists>n \<in> set nodes. node_id n = s \<and> node_shape n = DIAMOND)
      \<longleftrightarrow> s \<in> set (map node_id (filter (\<lambda>n. node_shape n = DIAMOND) nodes))" for s
    by auto
  then show ?thesis
    unfolding sanitizeEdges_def Let_def filter_filter keepsEdge_def hasLabel_iff
    by (intro filter_cong) auto
qed

text \<open>
  C1. For a graph with at least one node, the edges that \<open>computeLayout\<close> returns are the
  input edges that pass all three filters, in input order: every edge that passes is kept
  and every edge that fails one is dropped.
\<close>

theorem sanitization_characterization:
  "data_nodes data \<noteq> [] \<Longrightarrow>
     data_edges (computeLayout lc data direction)
       = filter (keepsEdge (data_nodes data)) (data_edges data)"
  by (simp add: computeLayout_def Let_def sanitizeEdges_keepsEdge)

theorem sanitization_characterization_witness:
  "data_nodes scenarioA \<noteq> []
   \<and> data_edges (computeLayout codeUnitCompare scenarioA TOP_BOTTOM)
       = filter (keepsEdge (data_nodes scenarioA)) (data_edges scenarioA)
   \<and> filter (keepsEdge (data_nodes scenarioA)) (data_edges scenarioA)
       = [mkEdge ''S'' ''A'' None, mkEdge ''A'' ''B'' None,
          mkEdge ''B'' ''C'' (Some ''Yes''), mkEdge ''B'' ''D'' (Some ''No'')]"
proof -
  have ne: "data_nodes scenarioA \<noteq> []"
    by (simp add: scenarioA_def)
  have "filter (keepsEdge (data_nodes scenarioA)) (data_edges scenarioA)
       = [mkEdge ''S'' ''A'' None, mkEdge ''A'' ''B'' None,
          mkEdge ''B'' ''C'' (Some ''Yes''), mkEdge ''B'' ''D'' (Some ''No'')]"
    by code_simp
  with ne sanitization_characterization [OF ne, of codeUnitCompare TOP_BOTTOM]
  show ?thesis by simp
qed

text \<open>
  C7. Sanitizing the edges of a graph a second time removes nothing more.
\<close>

theorem sanitize_idempotent:
  "sanitizeEdges nodes (sanitizeEdges nodes edges) = sanitizeEdges nodes edges"
  by (simp add: sanitizeEdges_keepsEdge)

theorem sanitize_idempotent_witness:
  "sanitizeEdges (data_nodes scenarioA)
       (sanitizeEdges (data_nodes scenarioA) (data_edges scenarioA))
     = sanitizeEdges (data_nodes scenarioA) (data_edges scenarioA)
   \<and> length (sanitizeEdges (data_nodes scenarioA) (data_edges scenarioA)) = 4
   \<and> length (data_edges scenarioA) = 8"
proof -
  have "length (sanitizeEdges (data_nodes scenarioA) (data_edges scenarioA)) = 4
      \<and> length (data_edges scenarioA) = 8"
    by code_simp
  with sanitize_idempotent [of "data_nodes scenarioA" "data_edges scenarioA"]
  show ?thesis by simp
qed

text \<open>
  C9. A graph with no node is returned as it is, without an error: its edges are not
  sanitized.
\<close>

theorem empty_graph_guard:
  "data_nodes data = [] \<Longrightarrow> computeLayout lc data direction = data"
  by (simp add: computeLayout_def)

theorem empty_graph_guard_witness:
  "data_nodes noNodes = []
   \<and> computeLayout codeUnitCompare noNodes ZIG_ZAG = noNodes
   \<and> data_edges (computeLayout codeUnitCompare noNodes ZIG_ZAG)
       = [mkEdge ''A'' ''A'' None, mkEdge ''A'' ''node99'' None]"
proof -
  have e: "data_nodes noNodes = []"
    by (simp add: noNodes_def)
  from empty_graph_guard [OF e, of codeUnitCompare ZIG_ZAG] e show ?thesis
    by (simp add: noNodes_def)
qed

section \<open>The frame of computeLayout\<close>

lemma map_update_same: "f a = f (xs ! i) \<Longrightarrow> map f (xs[i := a]) = map f xs"
  by (cases "i < length xs") (simp_all add: map_update list_update_same_conv list_update_beyond)

lemma setLevel_frame: "map frame (setLevel m i l ns) = map frame ns"
  by (simp add: setLevel_def frame_def map_update_same split: option.splits)

lemma setXY_frame: "map frame (setXY i px py ns) = map frame ns"
  by (simp add: setXY_def frame_def map_update_same)

lemma resetLevels_frame: "map frame (resetLevels ns) = map frame ns"
  by (simp add: resetLevels_def frame_def)

lemma bfsLoop_frame:
  "map frame (snd (snd (bfsLoop es m st))) = map frame (snd (snd st))"
proof (induction es m st rule: bfsLoop.induct)
  case (1 edges nodeMap visited nodes)
  show ?case by simp
next
  case (2 edges nodeMap nid level rest visited nodes)
  obtain v' q' where f:
    "foldl (visitEdge level) (visited, rest) (filter (\<lambda>e. edge_source e = nid) edges) = (v', q')"
    by force
  from "2.IH" [OF refl refl refl f [symmetric]] f show ?case
    by (simp add: setLevel_frame)
qed

lemma assignLevels_frame: "map frame (assignLevels ns es) = map frame ns"
proof -
  obtain q v ns' where b: "bfsLoop es (indexNodes 0 (resetLevels ns) Map.empty)
      ([(startNodeId (resetLevels ns) es, 0)], {startNodeId (resetLevels ns) es}, resetLevels ns)
      = (q, v, ns')"
    using prod_cases3 by blast
  from bfsLoop_frame [of es "indexNodes 0 (resetLevels ns) Map.empty"
      "([(startNodeId (resetLevels ns) es, 0)], {startNodeId (resetLevels ns) es}, resetLevels ns)"] b
  show ?thesis
    by (simp add: assignLevels_def Let_def resetLevels_frame)
qed

lemma placeSnake_frame: "map frame (placeSnake k idx ns) = map frame ns"
  by (induction k idx ns rule: placeSnake.induct) (simp_all add: setXY_frame)

lemma placeRow_frame: "map frame (placeRow sx lvl k idx ns) = map frame ns"
  by (induction sx lvl k idx ns rule: placeRow.induct) (simp_all add: setXY_frame)

lemma placeRows_frame: "map frame (placeRows w ls ns) = map frame ns"
  by (induction w ls ns rule: placeRows.induct) (simp_all add: placeRow_frame Let_def)

lemma applyLayout_frame: "map frame (applyLayout lc d ns) = map frame ns"
  by (simp add: applyLayout_def placeTopBottom_def Let_def placeSnake_frame placeRows_frame)

text \<open>
  C8. \<open>computeLayout\<close> leaves the identifier, the label and the shape of every node
  as they are, and the output has the same nodes in the same order: only the levels, the
  coordinates and the edge list change.
\<close>

theorem frame_property:
  "map frame (data_nodes (computeLayout lc data direction)) = map frame (data_nodes data)"
  by (simp add: computeLayout_def Let_def applyLayout_frame assignLevels_frame)

theorem frame_property_witness:
  "map frame (data_nodes (computeLayout codeUnitCompare scenarioA ZIG_ZAG))
     = map frame (data_nodes scenarioA)
   \<and> map node_level (data_nodes scenarioA) = [None, None, None, None, None, None]
   \<and> map node_level (data_nodes (computeLayout codeUnitCompare scenarioA ZIG_ZAG))
       = [Some 0, Some 1, Some 2, Some 3, Some 3, Some 0]"
proof -
  have "map node_level (data_nodes scenarioA) = [None, None, None, None, None, None]
      \<and> map node_level (data_nodes (computeLayout codeUnitCompare scenarioA ZIG_ZAG))
          = [Some 0, Some 1, Some 2, Some 3, Some 3, Some 0]"
    by code_simp
  with frame_property [of codeUnitCompare scenarioA ZIG_ZAG] show ?thesis
    by simp
qed

section \<open>Coordinate assignments\<close>

definition applyXY :: "(nat \<times> real \<times> real) list \<Rightarrow> FlowchartNode list \<Rightarrow> FlowchartNode list" where
  "applyXY asg ns = foldl (\<lambda>ns (i, a, b). setXY i a b ns) ns asg"

lemma applyXY_Nil: "applyXY [] ns = ns"
  by (simp add: applyXY_def)

lemma applyXY_Cons: "applyXY ((i, a, b) # asg) ns = applyXY asg (setXY i a b ns)"
  by (simp add: applyXY_def)

lemma applyXY_append: "applyXY (as1 @ as2) ns = applyXY as2 (applyXY as1 ns)"
  by (simp add: applyXY_def)

lemma length_setXY: "length (setXY i a b ns) = length ns"
  by (simp add: setXY_def)

lemma length_applyXY: "length (applyXY asg ns) = length ns"
  by (induction asg arbitrary: ns) (auto simp: applyXY_Nil applyXY_Cons length_setXY)

lemma applyXY_other: "i \<notin> fst ` set asg \<Longrightarrow> applyXY asg ns ! i = ns ! i"
  by (induction asg arbitrary: ns) (auto simp: applyXY_Nil applyXY_Cons setXY_def)

lemma applyXY_nth:
  assumes "distinct (map fst asg)" and "(i, a, b) \<in> set asg" and "i < length ns"
  shows "applyXY asg ns ! i = (ns ! i)\<lparr>node_x := Some a, node_y := Some b\<rparr>"
  using assms
proof (induction asg arbitrary: ns)
  case Nil
  then show ?case by simp
next
  case (Cons p asg)
  obtain j c d where p: "p = (j, c, d)" by (cases p)
  show ?case
  proof (cases "(i, a, b) = p")
    case True
    with Cons.prems p have "i \<notin> fst ` set asg" by auto
    with True p Cons.prems(3) show ?thesis
      by (simp add: applyXY_Cons applyXY_other setXY_def)
  next
    case False
    with Cons.prems p have mem: "(i, a, b) \<in> set asg" and ne: "j \<noteq> i"
      by (auto simp: image_iff)
    from Cons.prems have d: "distinct (map fst asg)" by simp
    from Cons.IH [OF d mem, of "setXY j c d ns"] Cons.prems(3) ne p show ?thesis
      by (simp add: applyXY_Cons setXY_def)
  qed
qed

text \<open>A node without its coordinates.\<close>

definition eraseXY :: "FlowchartNode \<Rightarrow> FlowchartNode" where
  "eraseXY n = n\<lparr>node_x := None, node_y := None\<rparr>"

lemma eraseXY_update: "(eraseXY n)\<lparr>node_x := a, node_y := b\<rparr> = n\<lparr>node_x := a, node_y := b\<rparr>"
  by (simp add: eraseXY_def)

lemma applyXY_cong:
  assumes d: "distinct (map fst asg)" and cover: "{..<length ns} \<subseteq> fst ` set asg"
    and e: "map eraseXY ns = map eraseXY ns'"
  shows "applyXY asg ns = applyXY asg ns'"
proof (rule nth_equalityI)
  from e have len: "length ns = length ns'"
    by (rule map_eq_imp_length_eq)
  then show "length (applyXY asg ns) = length (applyXY asg ns')"
    by (simp add: length_applyXY)
  fix i assume "i < length (applyXY asg ns)"
  then have i: "i < length ns" by (simp add: length_applyXY)
  with cover obtain a b where m: "(i, a, b) \<in> set asg" by force
  from e i len have "eraseXY (ns ! i) = eraseXY (ns' ! i)"
    by (metis nth_map)
  then have "(ns ! i)\<lparr>node_x := Some a, node_y := Some b\<rparr> = (ns' ! i)\<lparr>node_x := Some a, node_y := Some b\<rparr>"
    by (metis eraseXY_update)
  with applyXY_nth [OF d m i] applyXY_nth [OF d m, of ns'] i len
  show "applyXY asg ns ! i = applyXY asg ns' ! i" by simp
qed

lemma applyXY_map:
  assumes "\<And>n a b. f (n\<lparr>node_x := a, node_y := b\<rparr>) = f n"
  shows "map f (applyXY asg ns) = map f ns"
proof (induction asg arbitrary: ns)
  case Nil
  show ?case by (simp add: applyXY_Nil)
next
  case (Cons p asg)
  obtain j c d where p: "p = (j, c, d)" by (cases p)
  have "map f (setXY j c d ns) = map f ns"
    by (simp add: setXY_def map_update_same assms)
  with Cons p show ?case by (simp add: applyXY_Cons)
qed

text \<open>The assignments of the snake layout.\<close>

definition snakeX :: "nat \<Rightarrow> real" where
  "snakeX index = real (snakeCol index) * (NODE_WIDTH + X_GAP) + CANVAS_PADDING + NODE_WIDTH / 2"

definition snakeY :: "nat \<Rightarrow> real" where
  "snakeY index = real (snakeRow index) * (NODE_HEIGHT + Y_GAP) + CANVAS_PADDING + NODE_HEIGHT / 2"

fun snakeAsg :: "nat \<Rightarrow> nat list \<Rightarrow> (nat \<times> real \<times> real) list" where
  "snakeAsg index [] = []"
| "snakeAsg index (i # rest) = (i, snakeX index, snakeY index) # snakeAsg (Suc index) rest"

lemma placeSnake_applyXY: "placeSnake k idx ns = applyXY (snakeAsg k idx) ns"
  by (induction k idx ns rule: placeSnake.induct)
    (simp_all add: applyXY_Nil applyXY_Cons snakeX_def snakeY_def)

lemma map_fst_snakeAsg: "map fst (snakeAsg k idx) = idx"
  by (induction k idx rule: snakeAsg.induct) simp_all

lemma snakeAsg_mem: "p < length idx \<Longrightarrow> (idx ! p, snakeX (k + p), snakeY (k + p)) \<in> set (snakeAsg k idx)"
proof (induction k idx arbitrary: p rule: snakeAsg.induct)
  case (1 index)
  then show ?case by simp
next
  case (2 index i rest)
  then show ?case by (cases p) auto
qed

text \<open>The assignments of the top-bottom layout.\<close>

definition rowX :: "real \<Rightarrow> nat \<Rightarrow> real" where
  "rowX startX index = startX + real index * (NODE_WIDTH + X_GAP) + NODE_WIDTH / 2"

definition rowY :: "nat \<Rightarrow> real" where
  "rowY level = real level * (NODE_HEIGHT + Y_GAP) + CANVAS_PADDING + NODE_HEIGHT / 2"

definition rowStart :: "real \<Rightarrow> nat \<Rightarrow> real" where
  "rowStart maxW count = (maxW - (real count * (NODE_WIDTH + X_GAP) - X_GAP)) / 2 + CANVAS_PADDING"

fun rowAsg :: "real \<Rightarrow> nat \<Rightarrow> nat \<Rightarrow> nat list \<Rightarrow> (nat \<times> real \<times> real) list" where
  "rowAsg startX level index [] = []"
| "rowAsg startX level index (i # rest) =
     (i, rowX startX index, rowY level) # rowAsg startX level (Suc index) rest"

fun rowsAsg :: "real \<Rightarrow> (nat \<times> nat list) list \<Rightarrow> (nat \<times> real \<times> real) list" where
  "rowsAsg maxW [] = []"
| "rowsAsg maxW ((level, g) # rest) = rowAsg (rowStart maxW (length g)) level 0 g @ rowsAsg maxW rest"

lemma placeRow_applyXY: "placeRow sx lvl k idx ns = applyXY (rowAsg sx lvl k idx) ns"
  by (induction sx lvl k idx ns rule: placeRow.induct)
    (simp_all add: applyXY_Nil applyXY_Cons rowX_def rowY_def)

lemma placeRows_applyXY: "placeRows w ls ns = applyXY (rowsAsg w ls) ns"
  by (induction w ls ns rule: placeRows.induct)
    (simp_all add: applyXY_Nil applyXY_append placeRow_applyXY rowStart_def Let_def)

lemma map_fst_rowAsg: "map fst (rowAsg sx lvl k idx) = idx"
  by (induction sx lvl k idx rule: rowAsg.induct) simp_all

lemma map_fst_rowsAsg: "map fst (rowsAsg w ls) = concat (map snd ls)"
  by (induction w ls rule: rowsAsg.induct) (simp_all add: map_fst_rowAsg)

lemma rowAsg_mem: "p < length idx \<Longrightarrow> (idx ! p, rowX sx (k + p), rowY lvl) \<in> set (rowAsg sx lvl k idx)"
proof (induction sx lvl k idx arbitrary: p rule: rowAsg.induct)
  case (1 startX level index)
  then show ?case by simp
next
  case (2 startX level index i rest)
  then show ?case by (cases p) auto
qed

lemma rowsAsg_mem:
  assumes "(lvl, g) \<in> set ls" and "p < length g"
  shows "(g ! p, rowX (rowStart w (length g)) p, rowY lvl) \<in> set (rowsAsg w ls)"
  using assms
proof (induction w ls rule: rowsAsg.induct)
  case (1 maxW)
  then show ?case by simp
next
  case (2 maxW level g' rest)
  then show ?case
    using rowAsg_mem [of p g "rowStart maxW (length g)" 0 lvl] by auto
qed

section \<open>Sorting and grouping\<close>

subsection \<open>The sorted array is a permutation of the positions\<close>

lemma set_insertBy: "set (insertBy c a bs) = insert a (set bs)"
  by (induction bs) auto

lemma distinct_insertBy: "distinct (insertBy c a bs) \<longleftrightarrow> a \<notin> set bs \<and> distinct bs"
  by (induction bs) (auto simp: set_insertBy)

lemma set_sortBy: "set (sortBy c as) = set as"
  by (induction as) (simp_all add: sortBy_def set_insertBy)

lemma distinct_sortBy: "distinct (sortBy c as) \<longleftrightarrow> distinct as"
  using set_sortBy [of c]
  by (induction as) (simp_all add: sortBy_def distinct_insertBy)

lemma insertBy_cong:
  "(\<And>b. b \<in> set bs \<Longrightarrow> c a b = c' a b) \<Longrightarrow> insertBy c a bs = insertBy c' a bs"
  by (induction bs) simp_all

lemma sortBy_cong:
  "(\<And>a b. a \<in> set as \<Longrightarrow> b \<in> set as \<Longrightarrow> c a b = c' a b) \<Longrightarrow> sortBy c as = sortBy c' as"
proof (induction as)
  case Nil
  show ?case by (simp add: sortBy_def)
next
  case (Cons a as)
  then have "sortBy c as = sortBy c' as" by simp
  moreover have "insertBy c a (sortBy c' as) = insertBy c' a (sortBy c' as)"
    by (rule insertBy_cong) (simp add: set_sortBy Cons.prems)
  ultimately show ?case by (simp add: sortBy_def)
qed

lemma set_sortedNodes: "set (sortedNodes lc ns) = {..<length ns}"
  by (auto simp: sortedNodes_def set_sortBy)

lemma distinct_sortedNodes: "distinct (sortedNodes lc ns)"
  by (simp add: sortedNodes_def distinct_sortBy)

lemma length_sortedNodes: "length (sortedNodes lc ns) = length ns"
  using distinct_card [OF distinct_sortedNodes, of lc ns] by (simp add: set_sortedNodes)

subsection \<open>The sorted array is sorted\<close>

text \<open>
  With a comparator that is total and transitive, as \<^verbatim>\<open>localeCompare\<close> is, the sorted
  array is in ascending order of level, and of identifier within a level.
\<close>

lemma insertBy_sorted:
  assumes total: "\<And>a b. c a b \<le> 0 \<or> c b a \<le> 0"
    and trans: "\<And>a b d. c a b \<le> 0 \<Longrightarrow> c b d \<le> 0 \<Longrightarrow> c a d \<le> 0"
  shows "sorted_wrt (\<lambda>a b. c a b \<le> 0) bs \<Longrightarrow> sorted_wrt (\<lambda>a b. c a b \<le> 0) (insertBy c a bs)"
proof (induction bs)
  case Nil
  show ?case by simp
next
  case (Cons b bs)
  show ?case
  proof (cases "c a b \<le> 0")
    case True
    with Cons.prems have "\<forall>x \<in> set (b # bs). c a x \<le> 0"
      by (auto intro: trans)
    with True Cons.prems show ?thesis by simp
  next
    case False
    with total [of a b] have "c b a \<le> 0" by simp
    with False Cons show ?thesis
      by (auto simp: set_insertBy)
  qed
qed

lemma sortBy_sorted:
  assumes "\<And>a b. c a b \<le> 0 \<or> c b a \<le> 0"
    and "\<And>a b d. c a b \<le> 0 \<Longrightarrow> c b d \<le> 0 \<Longrightarrow> c a d \<le> 0"
  shows "sorted_wrt (\<lambda>a b. c a b \<le> 0) (sortBy c as)"
proof (induction as)
  case Nil
  show ?case by (simp add: sortBy_def)
next
  case (Cons a as)
  from insertBy_sorted [of c "sortBy c as" a, OF assms Cons] show ?case
    by (simp add: sortBy_def)
qed

lemma compareNodes_le:
  "compareNodes lc a b \<le> 0 \<longleftrightarrow>
     levelOr0 a < levelOr0 b \<or> (levelOr0 a = levelOr0 b \<and> lc (node_id a) (node_id b) \<le> 0)"
  by (auto simp: compareNodes_def Let_def)

lemma sortedNodes_sorted:
  assumes total: "\<And>a b. lc a b \<le> 0 \<or> lc b a \<le> 0"
    and trans: "\<And>a b d. lc a b \<le> 0 \<Longrightarrow> lc b d \<le> 0 \<Longrightarrow> lc a d \<le> 0"
  shows "sorted_wrt
           (\<lambda>i j. levelOr0 (ns ! i) < levelOr0 (ns ! j)
                \<or> (levelOr0 (ns ! i) = levelOr0 (ns ! j)
                   \<and> lc (node_id (ns ! i)) (node_id (ns ! j)) \<le> 0))
           (sortedNodes lc ns)"
proof -
  let ?c = "\<lambda>i j. compareNodes lc (ns ! i) (ns ! j)"
  have "sorted_wrt (\<lambda>i j. ?c i j \<le> 0) (sortBy ?c [0..<length ns])"
  proof (rule sortBy_sorted)
    show "?c i j \<le> 0 \<or> ?c j i \<le> 0" for i j
      using total [of "node_id (ns ! i)" "node_id (ns ! j)"]
      by (auto simp: compareNodes_le)
    show "?c i k \<le> 0" if "?c i j \<le> 0" "?c j k \<le> 0" for i j k
      using that trans [of "node_id (ns ! i)" "node_id (ns ! j)" "node_id (ns ! k)"]
      by (auto simp: compareNodes_le)
  qed
  then show ?thesis
    by (simp add: sortedNodes_def compareNodes_le)
qed

lemma codeUnitCompare_total: "codeUnitCompare a b \<le> 0 \<or> codeUnitCompare b a \<le> 0"
  by (induction a b rule: codeUnitCompare.induct) auto

lemma codeUnitCompare_trans:
  "codeUnitCompare a b \<le> 0 \<Longrightarrow> codeUnitCompare b c \<le> 0 \<Longrightarrow> codeUnitCompare a c \<le> 0"
proof (induction a b arbitrary: c rule: codeUnitCompare.induct)
  case 1
  then show ?case by simp
next
  case (2 b bs)
  then show ?case by (cases c) simp_all
next
  case (3 a as)
  then show ?case by simp
next
  case (4 a as b bs)
  show ?case
  proof (cases c)
    case Nil
    with "4.prems" show ?thesis by simp
  next
    case (Cons d ds)
    with "4.prems" "4.IH" [of ds] show ?thesis
      by (auto split: if_splits)
  qed
qed

lemma codeUnitCompare_consistent: "consistentComparator codeUnitCompare"
  unfolding consistentComparator_def
  using codeUnitCompare_total codeUnitCompare_trans by blast

lemma sortedNodes_levelIdSorted:
  assumes "consistentComparator lc"
  shows "levelIdSorted lc ns (sortedNodes lc ns)"
  unfolding levelIdSorted_def
proof (rule sortedNodes_sorted)
  from assms show "lc a b \<le> 0 \<or> lc b a \<le> 0" for a b
    unfolding consistentComparator_def by blast
  from assms show "lc a d \<le> 0" if "lc a b \<le> 0" "lc b d \<le> 0" for a b d
    using that unfolding consistentComparator_def by blast
qed

subsection \<open>What the sort reads\<close>

text \<open>The sort reads the levels and the identifiers only.\<close>

definition sortKey :: "FlowchartNode \<Rightarrow> nat \<times> jsstring" where
  "sortKey n = (levelOr0 n, node_id n)"

lemma sortedNodes_cong:
  assumes "map sortKey ns = map sortKey ns'"
  shows "sortedNodes lc ns = sortedNodes lc ns'"
proof -
  from assms have len: "length ns = length ns'"
    by (rule map_eq_imp_length_eq)
  have "compareNodes lc (ns ! i) (ns ! j) = compareNodes lc (ns' ! i) (ns' ! j)"
    if "i < length ns" and "j < length ns" for i j
  proof -
    from assms that len have "sortKey (ns ! i) = sortKey (ns' ! i)" "sortKey (ns ! j) = sortKey (ns' ! j)"
      by (metis nth_map)+
    then show ?thesis
      by (simp add: compareNodes_def sortKey_def Let_def)
  qed
  then show ?thesis
    unfolding sortedNodes_def len [symmetric]
    by (intro sortBy_cong) simp
qed

subsection \<open>The level groups\<close>

lemma fst_set_pushLevel: "fst ` set (pushLevel l i L) = insert l (fst ` set L)"
  by (induction l i L rule: pushLevel.induct) auto

lemma distinct_keys_pushLevel:
  "distinct (map fst L) \<Longrightarrow> distinct (map fst (pushLevel l i L))"
  by (induction l i L rule: pushLevel.induct) (auto simp: fst_set_pushLevel)

lemma map_of_pushLevel:
  "map_of (pushLevel l i L)
     = (map_of L)(l \<mapsto> (case map_of L l of None \<Rightarrow> [i] | Some g \<Rightarrow> g @ [i]))"
  by (induction l i L rule: pushLevel.induct) (auto simp: fun_eq_iff)

lemma Union_pushLevel:
  "(\<Union>p\<in>set (pushLevel l i L). set (snd p)) = insert i (\<Union>p\<in>set L. set (snd p))"
  by (induction l i L rule: pushLevel.induct) auto

lemma set_concat_pushLevel:
  "set (concat (map snd (pushLevel l i L))) = insert i (set (concat (map snd L)))"
  by (simp add: Union_pushLevel)

lemma distinct_concat_pushLevel:
  "distinct (concat (map snd (pushLevel l i L)))
     \<longleftrightarrow> i \<notin> set (concat (map snd L)) \<and> distinct (concat (map snd L))"
  by (induction l i L rule: pushLevel.induct) (auto simp: Union_pushLevel)

lemma groupLevels_snoc:
  "groupLevels ns (idx @ [i]) = pushLevel (levelOr0 (ns ! i)) i (groupLevels ns idx)"
  by (simp add: groupLevels_def)

lemma distinct_keys_groupLevels: "distinct (map fst (groupLevels ns idx))"
  by (induction idx rule: rev_induct)
    (simp_all add: groupLevels_snoc distinct_keys_pushLevel, simp add: groupLevels_def)

lemma Union_groupLevels: "(\<Union>p\<in>set (groupLevels ns idx). set (snd p)) = set idx"
  by (induction idx rule: rev_induct)
    (simp_all add: groupLevels_snoc Union_pushLevel, simp add: groupLevels_def)

lemma distinct_concat_groupLevels:
  "distinct idx \<Longrightarrow> distinct (concat (map snd (groupLevels ns idx)))"
proof (induction idx rule: rev_induct)
  case Nil
  show ?case by (simp add: groupLevels_def)
next
  case (snoc i idx)
  then have "distinct (concat (map snd (groupLevels ns idx)))" and "i \<notin> set idx"
    by simp_all
  moreover have "set (concat (map snd (groupLevels ns idx))) = set idx"
    by (simp add: Union_groupLevels)
  ultimately show ?case
    unfolding groupLevels_snoc distinct_concat_pushLevel by simp
qed

lemma map_of_groupLevels:
  "map_of (groupLevels ns idx) l
     = (if l \<in> (\<lambda>i. levelOr0 (ns ! i)) ` set idx
        then Some (filter (\<lambda>i. levelOr0 (ns ! i) = l) idx) else None)"
proof (induction idx arbitrary: l rule: rev_induct)
  case Nil
  show ?case by (simp add: groupLevels_def)
next
  case (snoc i idx)
  show ?case
    by (auto simp: groupLevels_snoc map_of_pushLevel snoc.IH filter_empty_conv image_iff)
qed

lemma groupLevels_mem:
  "(l, g) \<in> set (groupLevels ns idx)
     \<longleftrightarrow> g = filter (\<lambda>i. levelOr0 (ns ! i) = l) idx \<and> g \<noteq> []"
proof -
  have "(l, g) \<in> set (groupLevels ns idx) \<longleftrightarrow> map_of (groupLevels ns idx) l = Some g"
    using distinct_keys_groupLevels [of ns idx] by simp
  also have "\<dots> \<longleftrightarrow> g = filter (\<lambda>i. levelOr0 (ns ! i) = l) idx \<and> g \<noteq> []"
    unfolding map_of_groupLevels by (auto simp: filter_empty_conv)
  finally show ?thesis .
qed

lemma foldl_max:
  fixes a :: real
  shows "foldl (\<lambda>m p. max m (f p)) a ps = Max (insert a (f ` set ps))"
proof (induction ps arbitrary: a)
  case Nil
  show ?case by simp
next
  case (Cons p ps)
  have "Max (insert (max a (f p)) (f ` set ps)) = Max (insert a (insert (f p) (f ` set ps)))"
    by (cases "f ` set ps = {}") (simp_all add: max.assoc)
  with Cons show ?case by simp
qed

section \<open>The snake layout\<close>

lemma bfsLoop_nodes_invariant:
  assumes step: "\<And>nodeMap ns nid l. P ns \<Longrightarrow> P (setLevel nodeMap nid l ns)"
  shows "P (snd (snd st)) \<Longrightarrow> P (snd (snd (bfsLoop es m st)))"
proof (induction es m st rule: bfsLoop.induct)
  case (1 edges nodeMap visited nodes)
  then show ?case by simp
next
  case (2 edges nodeMap nid level rest visited nodes)
  obtain v' q' where f:
    "foldl (visitEdge level) (visited, rest) (filter (\<lambda>e. edge_source e = nid) edges) = (v', q')"
    by force
  from "2.prems" have "P (setLevel nodeMap nid level nodes)"
    by (simp add: step)
  with "2.IH" [OF refl refl refl f [symmetric]] f show ?case
    by simp
qed

definition hasLevel :: "FlowchartNode \<Rightarrow> bool" where
  "hasLevel n \<longleftrightarrow> node_level n \<noteq> None"

lemma setLevel_hasLevel: "list_all hasLevel ns \<Longrightarrow> list_all hasLevel (setLevel m nid l ns)"
  by (auto simp: setLevel_def list_all_iff hasLevel_def split: option.splits
      dest!: set_update_subset_insert [THEN subsetD])

lemma assignLevels_unfold:
  "assignLevels ns es
     = snd (snd (bfsLoop es (indexNodes 0 (resetLevels ns) Map.empty)
         ([(startNodeId (resetLevels ns) es, 0)], {startNodeId (resetLevels ns) es},
          resetLevels ns)))"
  by (simp add: assignLevels_def Let_def split: prod.splits)

lemma assignLevels_hasLevel: "list_all hasLevel (assignLevels ns es)"
  unfolding assignLevels_unfold
  by (rule bfsLoop_nodes_invariant [where P = "list_all hasLevel"])
    (simp_all add: setLevel_hasLevel, simp add: resetLevels_def list_all_iff hasLevel_def)

lemma length_assignLevels: "length (assignLevels ns es) = length ns"
  using assignLevels_frame [of ns es] by (rule map_eq_imp_length_eq)

lemma sortKey_setXY: "sortKey (n\<lparr>node_x := a, node_y := b\<rparr>) = sortKey n"
  by (simp add: sortKey_def levelOr0_def)

text \<open>The snake layout: what \<open>applyLayout\<close> gives the node at index \<open>i\<close> of the sorted array.\<close>

lemma applyLayout_snake_nth:
  assumes "i < length ns"
  shows "sortedNodes lc (applyLayout lc ZIG_ZAG ns) = sortedNodes lc ns"
    and "applyLayout lc ZIG_ZAG ns ! (sortedNodes lc ns ! i)
          = (ns ! (sortedNodes lc ns ! i))\<lparr>node_x := Some (snakeX i), node_y := Some (snakeY i)\<rparr>"
proof -
  let ?idx = "sortedNodes lc ns"
  have out: "applyLayout lc ZIG_ZAG ns = applyXY (snakeAsg 0 ?idx) ns"
    by (simp add: applyLayout_def placeSnake_applyXY)
  show "sortedNodes lc (applyLayout lc ZIG_ZAG ns) = ?idx"
    unfolding out by (rule sortedNodes_cong) (simp add: applyXY_map sortKey_setXY)
  from assms have i: "i < length ?idx"
    by (simp add: length_sortedNodes)
  then have "?idx ! i \<in> set ?idx" by simp
  then have lt: "?idx ! i < length ns"
    by (simp add: set_sortedNodes)
  have d: "distinct (map fst (snakeAsg 0 ?idx))"
    by (simp add: map_fst_snakeAsg distinct_sortedNodes)
  from snakeAsg_mem [OF i, of 0] applyXY_nth [OF d _ lt]
  show "applyLayout lc ZIG_ZAG ns ! (?idx ! i)
          = (ns ! (?idx ! i))\<lparr>node_x := Some (snakeX i), node_y := Some (snakeY i)\<rparr>"
    unfolding out by simp
qed

lemma snakeX_eq:
  "snakeX i = real (if odd (i div 4) then 3 - i mod 4 else i mod 4) * (220 + 60) + 50 + 110"
  by (simp add: snakeX_def snakeCol_def SNAKE_COLUMNS_def NODE_WIDTH_def X_GAP_def
      CANVAS_PADDING_def Let_def odd_iff_mod_2_eq_one)

lemma snakeY_eq: "snakeY i = real (i div 4) * (140 + 100) + 50 + 70"
  by (simp add: snakeY_def snakeRow_def SNAKE_COLUMNS_def NODE_HEIGHT_def Y_GAP_def
      CANVAS_PADDING_def)

text \<open>
  C4. With direction zig-zag, the node at index \<open>i\<close> of the (level, id)-sorted sequence
  is placed at row \<open>i div 4\<close> and column \<open>i mod 4\<close>, reflected to \<open>3 - i mod 4\<close> in an
  odd row, with centre \<open>x = col * (220 + 60) + 50 + 110\<close> and
  \<open>y = row * (140 + 100) + 50 + 70\<close>. The sequence holds every position of the node array
  once and, for a consistent comparator of identifiers, is in ascending order of level,
  and of identifier within a level. In the chain of nine nodes, the node at index 4 is at
  column 3 of row 1 and the node at index 7 at column 0 of row 1.
\<close>

theorem snake_geometry:
  assumes "i < length (data_nodes data)"
  shows "let out = data_nodes (computeLayout lc data ZIG_ZAG);
             sq = sortedNodes lc out;
             n = out ! (sq ! i);
             row = i div 4;
             col = (if odd row then 3 - i mod 4 else i mod 4)
         in node_x n = Some (real col * (220 + 60) + 50 + 110)
            \<and> node_y n = Some (real row * (140 + 100) + 50 + 70)
            \<and> distinct sq \<and> set sq = {..<length out}
            \<and> (consistentComparator lc \<longrightarrow> levelIdSorted lc out sq)"
proof -
  define leveled where
    "leveled = assignLevels (data_nodes data) (sanitizeEdges (data_nodes data) (data_edges data))"
  from assms have "data_nodes data \<noteq> []"
    by auto
  then have out: "data_nodes (computeLayout lc data ZIG_ZAG) = applyLayout lc ZIG_ZAG leveled"
    by (simp add: computeLayout_def Let_def leveled_def)
  from assms have i: "i < length leveled"
    by (simp add: leveled_def length_assignLevels)
  let ?out = "applyLayout lc ZIG_ZAG leveled"
  have pos: "node_x (?out ! (sortedNodes lc ?out ! i))
        = Some (real (if odd (i div 4) then 3 - i mod 4 else i mod 4) * (220 + 60) + 50 + 110)
      \<and> node_y (?out ! (sortedNodes lc ?out ! i)) = Some (real (i div 4) * (140 + 100) + 50 + 70)"
    using applyLayout_snake_nth [OF i, of lc] by (simp add: snakeX_eq snakeY_eq)
  have perm: "distinct (sortedNodes lc ?out) \<and> set (sortedNodes lc ?out) = {..<length ?out}"
    by (simp add: distinct_sortedNodes set_sortedNodes)
  have srt: "consistentComparator lc \<longrightarrow> levelIdSorted lc ?out (sortedNodes lc ?out)"
    by (simp add: sortedNodes_levelIdSorted)
  from pos perm srt show ?thesis
    unfolding out Let_def by blast
qed

theorem snake_geometry_witness:
  "4 < length (data_nodes chain9) \<and> 7 < length (data_nodes chain9)
   \<and> (let out = data_nodes (computeLayout codeUnitCompare chain9 ZIG_ZAG)
      in sortedNodes codeUnitCompare out = [0, 1, 2, 3, 4, 5, 6, 7, 8]
         \<and> node_x (out ! 4) = Some (3 * (220 + 60) + 50 + 110)
         \<and> node_y (out ! 4) = Some (1 * (140 + 100) + 50 + 70)
         \<and> node_x (out ! 7) = Some (0 * (220 + 60) + 50 + 110)
         \<and> node_y (out ! 7) = Some (1 * (140 + 100) + 50 + 70))
   \<and> 1 < length (data_nodes listedOutOfOrder)
   \<and> consistentComparator codeUnitCompare
   \<and> (let out = data_nodes (computeLayout codeUnitCompare listedOutOfOrder ZIG_ZAG)
      in map node_id out = [js ''m'', js ''r'', js ''k'']
         \<and> map node_level out = [Some 1, Some 0, Some 2]
         \<and> sortedNodes codeUnitCompare out = [1, 0, 2]
         \<and> levelIdSorted codeUnitCompare out [1, 0, 2]
         \<and> \<not> levelIdSorted codeUnitCompare out [0, 1, 2]
         \<and> node_x (out ! 0) = Some (1 * (220 + 60) + 50 + 110)
         \<and> node_y (out ! 0) = Some (0 * (140 + 100) + 50 + 70))"
proof -
  have i4: "4 < length (data_nodes chain9)" and i7: "7 < length (data_nodes chain9)"
    by (simp_all add: chain9_def)
  have s: "sortedNodes codeUnitCompare (data_nodes (computeLayout codeUnitCompare chain9 ZIG_ZAG))
      = [0, 1, 2, 3, 4, 5, 6, 7, 8]"
    by code_simp
  have i1: "1 < length (data_nodes listedOutOfOrder)"
    by (simp add: listedOutOfOrder_def)
  let ?out = "data_nodes (computeLayout codeUnitCompare listedOutOfOrder ZIG_ZAG)"
  have t: "sortedNodes codeUnitCompare ?out = [1, 0, 2]"
    by code_simp
  have ev: "map node_id ?out = [js ''m'', js ''r'', js ''k'']
      \<and> map node_level ?out = [Some 1, Some 0, Some 2]
      \<and> \<not> levelIdSorted codeUnitCompare ?out [0, 1, 2]"
    by code_simp
  note c = codeUnitCompare_consistent
  from snake_geometry [OF i4, of codeUnitCompare] snake_geometry [OF i7, of codeUnitCompare]
    snake_geometry [OF i1, of codeUnitCompare] i4 i7 i1 s t ev c
  show ?thesis
    by (simp add: Let_def)
qed

section \<open>The top-bottom layout\<close>

lemma levelGroup_cong:
  assumes "map levelOr0 ns = map levelOr0 ns'" and "set idx \<subseteq> {..<length ns}"
  shows "levelGroup ns idx l = levelGroup ns' idx l"
  unfolding levelGroup_def
proof (rule filter_cong [OF refl])
  fix i assume "i \<in> set idx"
  with assms(2) have "i < length ns" by auto
  with assms(1) have "levelOr0 (ns ! i) = levelOr0 (ns' ! i)"
    by (metis length_map nth_map)
  then show "(levelOr0 (ns ! i) = l) = (levelOr0 (ns' ! i) = l)" by simp
qed

lemma widestRow_cong:
  assumes "map levelOr0 ns = map levelOr0 ns'" and "set idx \<subseteq> {..<length ns}"
  shows "widestRow ns idx = widestRow ns' idx"
proof -
  from assms(1) have "levelOr0 ` set ns = levelOr0 ` set ns'"
    by (metis set_map)
  with levelGroup_cong [OF assms] show ?thesis
    by (simp add: widestRow_def)
qed

lemma maxRowWidth_widestRow:
  assumes "ns \<noteq> []"
  shows "maxRowWidth (groupLevels ns (sortedNodes lc ns)) = widestRow ns (sortedNodes lc ns)"
proof -
  let ?idx = "sortedNodes lc ns"
  let ?w = "\<lambda>g :: nat list. real (length g) * (NODE_WIDTH + X_GAP)"
  let ?S = "(\<lambda>l. ?w (levelGroup ns ?idx l)) ` levelOr0 ` set ns"
  have "set ns = (\<lambda>i. ns ! i) ` {..<length ns}"
    by (auto simp: in_set_conv_nth)
  then have lv: "levelOr0 ` set ns = (\<lambda>i. levelOr0 (ns ! i)) ` set ?idx"
    by (simp add: image_image set_sortedNodes)
  have "(\<lambda>(level, g). ?w g) ` set (groupLevels ns ?idx) = ?S"
  proof (intro set_eqI iffI)
    fix r assume "r \<in> (\<lambda>(level, g). ?w g) ` set (groupLevels ns ?idx)"
    then obtain l g where m: "(l, g) \<in> set (groupLevels ns ?idx)" and r: "r = ?w g"
      by auto
    from m have g: "g = levelGroup ns ?idx l" and "g \<noteq> []"
      by (auto simp: groupLevels_mem levelGroup_def)
    then obtain i where "i \<in> set ?idx" "levelOr0 (ns ! i) = l"
      by (auto simp: levelGroup_def filter_empty_conv)
    then have "l \<in> levelOr0 ` set ns"
      unfolding lv by blast
    with r g show "r \<in> ?S" by blast
  next
    fix r assume "r \<in> ?S"
    then obtain l where l: "l \<in> levelOr0 ` set ns" and r: "r = ?w (levelGroup ns ?idx l)"
      by blast
    from l have "levelGroup ns ?idx l \<noteq> []"
      unfolding lv by (auto simp: levelGroup_def filter_empty_conv)
    then have "(l, levelGroup ns ?idx l) \<in> set (groupLevels ns ?idx)"
      by (simp add: groupLevels_mem levelGroup_def)
    with r show "r \<in> (\<lambda>(level, g). ?w g) ` set (groupLevels ns ?idx)"
      by force
  qed
  moreover have "maxRowWidth (groupLevels ns ?idx)
      = foldl (\<lambda>m p. max m ((\<lambda>(level, g). ?w g) p)) 0 (groupLevels ns ?idx)"
    by (simp add: maxRowWidth_def case_prod_unfold)
  ultimately have "maxRowWidth (groupLevels ns ?idx) = Max (insert 0 ?S)"
    by (simp only: foldl_max)
  also have "\<dots> = Max ?S"
  proof -
    from assms have ne: "?S \<noteq> {}" by simp
    have "finite ?S" by simp
    moreover have "\<forall>r \<in> ?S. 0 \<le> r"
      by (auto simp: NODE_WIDTH_def X_GAP_def)
    ultimately have "0 \<le> Max ?S"
      using ne by (meson Max_in)
    with ne show ?thesis by simp
  qed
  finally show ?thesis
    by (simp add: widestRow_def NODE_WIDTH_def X_GAP_def)
qed

lemma levelOr0_setXY: "levelOr0 (n\<lparr>node_x := a, node_y := b\<rparr>) = levelOr0 n"
  by (simp add: levelOr0_def)

text \<open>
  The top-bottom layout: what \<open>applyLayout\<close> gives the \<open>k\<close>-th node of the group of
  level \<open>l\<close>.
\<close>

lemma applyLayout_top_bottom_nth:
  assumes ne: "ns \<noteq> []" and k: "k < length (levelGroup ns (sortedNodes lc ns) l)"
  shows "applyLayout lc TOP_BOTTOM ns ! (levelGroup ns (sortedNodes lc ns) l ! k)
          = (ns ! (levelGroup ns (sortedNodes lc ns) l ! k))
              \<lparr>node_x := Some (rowX (rowStart (widestRow ns (sortedNodes lc ns))
                                 (length (levelGroup ns (sortedNodes lc ns) l))) k),
               node_y := Some (rowY l)\<rparr>"
proof -
  let ?idx = "sortedNodes lc ns"
  let ?L = "groupLevels ns ?idx"
  let ?g = "levelGroup ns ?idx l"
  let ?asg = "rowsAsg (widestRow ns ?idx) ?L"
  have out: "applyLayout lc TOP_BOTTOM ns = applyXY ?asg ns"
    by (simp add: applyLayout_def placeTopBottom_def Let_def placeRows_applyXY
        maxRowWidth_widestRow [OF ne])
  from k have "?g \<noteq> []" by auto
  then have m: "(l, ?g) \<in> set ?L"
    by (simp add: groupLevels_mem levelGroup_def)
  from k have "?g ! k \<in> set ?g" by simp
  then have "?g ! k \<in> set ?idx"
    by (simp add: levelGroup_def)
  then have lt: "?g ! k < length ns"
    by (simp add: set_sortedNodes)
  have d: "distinct (map fst ?asg)"
    by (simp add: map_fst_rowsAsg distinct_concat_groupLevels distinct_sortedNodes)
  from applyXY_nth [OF d rowsAsg_mem [OF m k] lt] show ?thesis
    unfolding out .
qed

lemma rowX_eq:
  "rowX (rowStart w c) k = (w - (real c * (220 + 60) - 60)) / 2 + 50 + real k * (220 + 60) + 110"
  by (simp add: rowX_def rowStart_def NODE_WIDTH_def X_GAP_def CANVAS_PADDING_def)

lemma rowY_eq: "rowY l = real l * (140 + 100) + 50 + 70"
  by (simp add: rowY_def NODE_HEIGHT_def Y_GAP_def CANVAS_PADDING_def)

lemma applyLayout_sortKey: "map sortKey (applyLayout lc d ns) = map sortKey ns"
  by (simp add: applyLayout_def placeTopBottom_def Let_def placeSnake_applyXY placeRows_applyXY
      applyXY_map sortKey_setXY)

lemma applyLayout_levelOr0: "map levelOr0 (applyLayout lc d ns) = map levelOr0 ns"
  by (simp add: applyLayout_def placeTopBottom_def Let_def placeSnake_applyXY placeRows_applyXY
      applyXY_map levelOr0_setXY)

text \<open>
  C5. With direction top-bottom, the \<open>k\<close>-th node of the group of level \<open>l\<close> has
  centre \<open>x = (maxRowWidth - rowWidth) / 2 + 50 + k * (220 + 60) + 110\<close>, where
  \<open>rowWidth = count * (220 + 60) - 60\<close> and \<open>maxRowWidth\<close> is the largest
  \<open>count * (220 + 60)\<close> of a group, and centre \<open>y = l * (140 + 100) + 50 + 70\<close>; two
  consecutive nodes of a row are \<open>280\<close> apart.
\<close>

theorem hierarchical_geometry:
  assumes "k < length (levelGroup (data_nodes (computeLayout lc data TOP_BOTTOM))
               (sortedNodes lc (data_nodes (computeLayout lc data TOP_BOTTOM))) l)"
  shows "let out = data_nodes (computeLayout lc data TOP_BOTTOM);
             group = levelGroup out (sortedNodes lc out) l;
             rowWidth = real (length group) * (220 + 60) - 60;
             maxRowWidth = widestRow out (sortedNodes lc out);
             n = out ! (group ! k)
         in node_level n = Some l
            \<and> node_x n = Some ((maxRowWidth - rowWidth) / 2 + 50 + real k * (220 + 60) + 110)
            \<and> node_y n = Some (real l * (140 + 100) + 50 + 70)
            \<and> (Suc k < length group \<longrightarrow>
                 the (node_x (out ! (group ! Suc k))) - the (node_x n) = 220 + 60)"
proof -
  define leveled where
    "leveled = assignLevels (data_nodes data) (sanitizeEdges (data_nodes data) (data_edges data))"
  define idx where "idx = sortedNodes lc leveled"
  define g where "g = levelGroup leveled idx l"
  define out where "out = applyLayout lc TOP_BOTTOM leveled"
  have nodes: "data_nodes data \<noteq> []"
  proof
    assume "data_nodes data = []"
    then have "data_nodes (computeLayout lc data TOP_BOTTOM) = []"
      by (simp add: computeLayout_def)
    with assms show False
      by (simp add: levelGroup_def sortedNodes_def sortBy_def)
  qed
  then have o: "data_nodes (computeLayout lc data TOP_BOTTOM) = out"
    by (simp add: computeLayout_def Let_def leveled_def out_def)
  have "length leveled = length (data_nodes data)"
    by (simp add: leveled_def length_assignLevels)
  with nodes have ne: "leveled \<noteq> []"
    by auto
  have s: "sortedNodes lc out = idx"
    unfolding out_def idx_def by (rule sortedNodes_cong) (rule applyLayout_sortKey)
  have sub: "set idx \<subseteq> {..<length out}"
    unfolding s [symmetric] by (simp add: set_sortedNodes)
  have lv: "map levelOr0 out = map levelOr0 leveled"
    unfolding out_def by (rule applyLayout_levelOr0)
  have grp: "levelGroup out idx l = g"
    unfolding g_def by (rule levelGroup_cong [OF lv sub])
  have w: "widestRow out idx = widestRow leveled idx"
    by (rule widestRow_cong [OF lv sub])
  have pos: "out ! (g ! j) = (leveled ! (g ! j))
       \<lparr>node_x := Some ((widestRow leveled idx - (real (length g) * (220 + 60) - 60)) / 2
                         + 50 + real j * (220 + 60) + 110),
        node_y := Some (real l * (140 + 100) + 50 + 70)\<rparr>" if "j < length g" for j
    using applyLayout_top_bottom_nth [OF ne, of j lc l] that
    by (simp add: out_def idx_def g_def rowX_eq rowY_eq)
  from assms have k: "k < length g"
    by (simp add: o s grp)
  then have "g ! k \<in> set g" by simp
  then have "levelOr0 (leveled ! (g ! k)) = l" and "g ! k \<in> set idx"
    by (simp_all add: g_def levelGroup_def)
  moreover from this sub have "g ! k < length leveled"
    using lv by (metis length_map lessThan_iff subsetD)
  then have "hasLevel (leveled ! (g ! k))"
    using assignLevels_hasLevel [of "data_nodes data"] by (simp add: leveled_def list_all_length)
  ultimately have "node_level (leveled ! (g ! k)) = Some l"
    by (auto simp: hasLevel_def levelOr0_def)
  with pos [OF k] pos [of "Suc k"] show ?thesis
    unfolding o Let_def s grp w by (simp add: algebra_simps)
qed

theorem hierarchical_geometry_witness:
  "data_nodes scenarioA \<noteq> []
   \<and> (let out = data_nodes (computeLayout codeUnitCompare scenarioA TOP_BOTTOM);
          group = levelGroup out (sortedNodes codeUnitCompare out) 3
      in group = [3, 4] \<and> 0 < length group
         \<and> widestRow out (sortedNodes codeUnitCompare out) = 560
         \<and> node_level (out ! 3) = Some 3
         \<and> node_x (out ! 3) = Some 190 \<and> node_y (out ! 3) = Some 840
         \<and> the (node_x (out ! 4)) - the (node_x (out ! 3)) = 280)"
proof -
  let ?out = "data_nodes (computeLayout codeUnitCompare scenarioA TOP_BOTTOM)"
  have ne: "data_nodes scenarioA \<noteq> []"
    by (simp add: scenarioA_def)
  have g: "levelGroup ?out (sortedNodes codeUnitCompare ?out) 3 = [3, 4]"
    by code_simp
  have w: "widestRow ?out (sortedNodes codeUnitCompare ?out) = 560"
    by code_simp
  have k: "0 < length (levelGroup ?out (sortedNodes codeUnitCompare ?out) 3)"
    by (simp add: g)
  from hierarchical_geometry [OF k] ne g w show ?thesis
    by (auto simp: Let_def)
qed

section \<open>Laying out again\<close>

subsection \<open>What each phase reads\<close>

lemma keepsEdge_frame:
  "keepsEdge ns e \<longleftrightarrow>
     (edge_source e \<in> fst ` set (map frame ns) \<and> edge_target e \<in> fst ` set (map frame ns))
     \<and> edge_source e \<noteq> edge_target e
     \<and> ((\<exists>p \<in> set (map frame ns). fst p = edge_source e \<and> snd (snd p) = DIAMOND)
          \<longrightarrow> (case edge_label e of None \<Rightarrow> False | Some l \<Rightarrow> 0 < length (trim l)))"
  by (simp add: keepsEdge_def frame_def image_image)

lemma sanitizeEdges_cong:
  "map frame ns = map frame ns' \<Longrightarrow> sanitizeEdges ns es = sanitizeEdges ns' es"
  by (simp add: sanitizeEdges_keepsEdge keepsEdge_frame cong: filter_cong)

lemma frame_node_id: "map frame ns = map frame ns' \<Longrightarrow> map node_id ns = map node_id ns'"
proof -
  assume "map frame ns = map frame ns'"
  then have "map fst (map frame ns) = map fst (map frame ns')" by simp
  then show ?thesis by (simp add: frame_def comp_def)
qed

lemma indexNodes_cong:
  "map node_id ns = map node_id ns' \<Longrightarrow> indexNodes i ns m = indexNodes i ns' m"
proof (induction ns arbitrary: ns' i m)
  case Nil
  then show ?case by simp
next
  case (Cons n ns)
  then obtain n' rest' where ns': "ns' = n' # rest'" by (cases ns') auto
  with Cons.prems have n: "node_id n = node_id n'" and r: "map node_id ns = map node_id rest'"
    by simp_all
  have "indexNodes i (n # ns) m = indexNodes (Suc i) ns (m(node_id n' \<mapsto> i))"
    by (simp only: indexNodes.simps n)
  also have "\<dots> = indexNodes (Suc i) rest' (m(node_id n' \<mapsto> i))"
    by (rule Cons.IH [OF r])
  also have "\<dots> = indexNodes i ns' m"
    by (simp only: ns' indexNodes.simps)
  finally show ?case .
qed

lemma find_node_id:
  "map_option node_id (find (\<lambda>n. P (node_id n)) ns) = find P (map node_id ns)"
  by (induction ns) simp_all

lemma startNodeId_alt:
  "startNodeId ns es
     = (case map_option node_id (find (\<lambda>n. node_id n \<notin> set (map edge_target es)) ns) of
          None \<Rightarrow> node_id (hd ns)
        | Some i \<Rightarrow> if i \<noteq> [] then i else node_id (hd ns))"
  by (simp add: startNodeId_def Let_def split: option.splits)

lemma startNodeId_cong:
  assumes "map node_id ns = map node_id ns'"
  shows "startNodeId ns es = startNodeId ns' es"
proof (cases ns)
  case Nil
  with assms show ?thesis by simp
next
  case (Cons n rest)
  with assms obtain n' rest' where ns': "ns' = n' # rest'" by (cases ns') auto
  with Cons assms have h: "node_id (hd ns) = node_id (hd ns')" by simp
  have "map_option node_id (find (\<lambda>n. node_id n \<notin> set (map edge_target es)) ns)
      = map_option node_id (find (\<lambda>n. node_id n \<notin> set (map edge_target es)) ns')"
    using find_node_id [of "\<lambda>i. i \<notin> set (map edge_target es)" ns]
      find_node_id [of "\<lambda>i. i \<notin> set (map edge_target es)" ns'] assms
    by simp
  then show ?thesis
    by (simp only: startNodeId_alt h)
qed

subsection \<open>The levels do not depend on the coordinates\<close>

lemma eraseXY_level: "eraseXY (n\<lparr>node_level := l\<rparr>) = (eraseXY n)\<lparr>node_level := l\<rparr>"
  by (cases n) (simp add: eraseXY_def)

lemma levelOr0_eraseXY: "levelOr0 (eraseXY n) = levelOr0 n"
  by (simp add: eraseXY_def levelOr0_def)

lemma setLevel_eraseXY: "setLevel m nid l (map eraseXY ns) = map eraseXY (setLevel m nid l ns)"
proof (cases "m nid")
  case None
  then show ?thesis by (simp add: setLevel_def)
next
  case (Some i)
  show ?thesis
  proof (cases "i < length ns")
    case True
    with Some show ?thesis
      by (simp add: setLevel_def map_update eraseXY_level levelOr0_eraseXY)
  next
    case False
    with Some show ?thesis
      by (simp add: setLevel_def list_update_beyond)
  qed
qed

lemma bfsLoop_eraseXY:
  "snd (snd (bfsLoop es m (q, v, map eraseXY ns)))
     = map eraseXY (snd (snd (bfsLoop es m (q, v, ns))))"
proof (induction es m "(q, v, ns)" arbitrary: q v ns rule: bfsLoop.induct)
  case (1 edges nodeMap visited nodes)
  show ?case by simp
next
  case (2 edges nodeMap nid level rest visited nodes)
  obtain v' q' where f:
    "foldl (visitEdge level) (visited, rest) (filter (\<lambda>e. edge_source e = nid) edges) = (v', q')"
    by force
  from "2.hyps" [OF refl refl refl f [symmetric]] f show ?case
    by (simp add: setLevel_eraseXY)
qed

definition blankNode :: "jsstring \<times> jsstring \<times> NodeShape \<Rightarrow> FlowchartNode" where
  "blankNode p = \<lparr>node_id = fst p, node_label = fst (snd p), node_shape = snd (snd p),
                  node_x = None, node_y = None, node_level = Some 0\<rparr>"

lemma eraseXY_resetLevels: "map eraseXY (resetLevels ns) = map blankNode (map frame ns)"
  by (simp add: resetLevels_def eraseXY_def blankNode_def frame_def)

lemma assignLevels_cong:
  assumes "map frame ns = map frame ns'"
  shows "map eraseXY (assignLevels ns es) = map eraseXY (assignLevels ns' es)"
proof -
  from assms have "map frame (resetLevels ns) = map frame (resetLevels ns')"
    by (simp add: resetLevels_frame)
  then have ids: "map node_id (resetLevels ns) = map node_id (resetLevels ns')"
    by (rule frame_node_id)
  from assms have e: "map eraseXY (resetLevels ns) = map eraseXY (resetLevels ns')"
    by (simp add: eraseXY_resetLevels)
  show ?thesis
    unfolding assignLevels_unfold bfsLoop_eraseXY [symmetric]
      indexNodes_cong [OF ids] startNodeId_cong [OF ids] e ..
qed

subsection \<open>The layout overwrites every coordinate\<close>

lemma sortKey_eraseXY: "sortKey (eraseXY n) = sortKey n"
  by (simp add: sortKey_def eraseXY_def levelOr0_def)

lemma eraseXY_sortKey:
  assumes "map eraseXY ns = map eraseXY ns'"
  shows "map sortKey ns = map sortKey ns'"
proof -
  from assms have "map sortKey (map eraseXY ns) = map sortKey (map eraseXY ns')"
    by simp
  then show ?thesis
    by (simp add: comp_def sortKey_eraseXY)
qed

lemma eraseXY_levelOr0:
  assumes "map eraseXY ns = map eraseXY ns'"
  shows "map levelOr0 ns = map levelOr0 ns'"
proof -
  from assms have "map levelOr0 (map eraseXY ns) = map levelOr0 (map eraseXY ns')"
    by simp
  then show ?thesis
    by (simp add: comp_def levelOr0_eraseXY)
qed

lemma groupLevels_cong:
  assumes "map levelOr0 ns = map levelOr0 ns'" and "set idx \<subseteq> {..<length ns}"
  shows "groupLevels ns idx = groupLevels ns' idx"
  using assms(2)
proof (induction idx rule: rev_induct)
  case Nil
  show ?case by (simp add: groupLevels_def)
next
  case (snoc i idx)
  then have "i < length ns" by simp
  with assms(1) have "levelOr0 (ns ! i) = levelOr0 (ns' ! i)"
    by (metis length_map nth_map)
  with snoc show ?case
    by (simp add: groupLevels_snoc)
qed

lemma applyLayout_cong:
  assumes e: "map eraseXY ns = map eraseXY ns'"
  shows "applyLayout lc d ns = applyLayout lc d ns'"
proof -
  let ?idx = "sortedNodes lc ns"
  have s: "sortedNodes lc ns' = ?idx"
    by (rule sortedNodes_cong [symmetric]) (rule eraseXY_sortKey [OF e])
  have sub: "set ?idx \<subseteq> {..<length ns}"
    by (simp add: set_sortedNodes)
  have g: "groupLevels ns' ?idx = groupLevels ns ?idx"
    by (rule groupLevels_cong [symmetric, OF eraseXY_levelOr0 [OF e] sub])
  show ?thesis
  proof (cases "d = ZIG_ZAG")
    case True
    have "applyXY (snakeAsg 0 ?idx) ns = applyXY (snakeAsg 0 ?idx) ns'"
      by (rule applyXY_cong [OF _ _ e])
        (simp_all add: map_fst_snakeAsg distinct_sortedNodes set_sortedNodes
          flip: set_map)
    with True show ?thesis
      by (simp add: applyLayout_def s placeSnake_applyXY)
  next
    case False
    let ?asg = "rowsAsg (maxRowWidth (groupLevels ns ?idx)) (groupLevels ns ?idx)"
    have "set (map fst ?asg) = set ?idx"
      by (simp add: map_fst_rowsAsg Union_groupLevels)
    then have "fst ` set ?asg = {..<length ns}"
      by (simp add: set_sortedNodes)
    then have "applyXY ?asg ns = applyXY ?asg ns'"
      by (intro applyXY_cong [OF _ _ e])
        (simp_all add: map_fst_rowsAsg distinct_concat_groupLevels distinct_sortedNodes)
    with False show ?thesis
      by (simp add: applyLayout_def placeTopBottom_def Let_def s g placeRows_applyXY)
  qed
qed

lemma computeLayout_again:
  "computeLayout lc (computeLayout lc g d') d = computeLayout lc g d"
proof (cases "data_nodes g = []")
  case True
  then show ?thesis by (simp add: computeLayout_def)
next
  case False
  define ns where "ns = data_nodes g"
  define es where "es = sanitizeEdges ns (data_edges g)"
  define ns' where "ns' = applyLayout lc d' (assignLevels ns es)"
  from False have g': "computeLayout lc g d' = \<lparr>data_nodes = ns', data_edges = es\<rparr>"
    by (simp add: computeLayout_def Let_def ns_def es_def ns'_def)
  have fr: "map frame ns' = map frame ns"
    by (simp add: ns'_def applyLayout_frame assignLevels_frame)
  then have "length ns' = length ns"
    by (rule map_eq_imp_length_eq)
  with False have ne: "ns' \<noteq> []"
    by (auto simp: ns_def)
  have es': "sanitizeEdges ns' es = es"
    unfolding sanitizeEdges_cong [OF fr] es_def by (simp add: sanitizeEdges_keepsEdge)
  have "applyLayout lc d (assignLevels ns' es) = applyLayout lc d (assignLevels ns es)"
    by (rule applyLayout_cong) (rule assignLevels_cong [OF fr])
  moreover from ne have "computeLayout lc \<lparr>data_nodes = ns', data_edges = es\<rparr> d
      = \<lparr>data_nodes = applyLayout lc d (assignLevels ns' es), data_edges = es\<rparr>"
    by (simp add: computeLayout_def Let_def es')
  moreover from False have "computeLayout lc g d
      = \<lparr>data_nodes = applyLayout lc d (assignLevels ns es), data_edges = es\<rparr>"
    by (simp add: computeLayout_def Let_def ns_def es_def)
  ultimately show ?thesis
    unfolding g' by simp
qed

text \<open>
  C6. Laying a graph out again gives the same result: after any sequence of layouts of
  a graph, each applied to the result of the one before, a layout with direction \<open>d\<close>
  returns what a single layout of the graph with direction \<open>d\<close> returns.
\<close>

theorem layout_round_trip:
  "computeLayout lc (foldl (computeLayout lc) g ds) d = computeLayout lc g d"
proof (induction ds rule: rev_induct)
  case Nil
  show ?case by simp
next
  case (snoc d' ds)
  have "computeLayout lc (foldl (computeLayout lc) g (ds @ [d'])) d
      = computeLayout lc (computeLayout lc (foldl (computeLayout lc) g ds) d') d"
    by simp
  also have "\<dots> = computeLayout lc (foldl (computeLayout lc) g ds) d"
    by (rule computeLayout_again)
  also have "\<dots> = computeLayout lc g d"
    by (rule snoc.IH)
  finally show ?case .
qed

theorem layout_round_trip_witness:
  "computeLayout codeUnitCompare
       (foldl (computeLayout codeUnitCompare) scenarioA [ZIG_ZAG, TOP_BOTTOM]) ZIG_ZAG
     = computeLayout codeUnitCompare scenarioA ZIG_ZAG
   \<and> map node_x (data_nodes (computeLayout codeUnitCompare scenarioA ZIG_ZAG))
       = [Some 440, Some 720, Some 1000, Some 1000, Some 720, Some 160]
   \<and> map node_x (data_nodes (computeLayout codeUnitCompare scenarioA TOP_BOTTOM))
       = [Some 470, Some 330, Some 330, Some 190, Some 470, Some 190]"
proof -
  have "map node_x (data_nodes (computeLayout codeUnitCompare scenarioA ZIG_ZAG))
       = [Some 440, Some 720, Some 1000, Some 1000, Some 720, Some 160]
   \<and> map node_x (data_nodes (computeLayout codeUnitCompare scenarioA TOP_BOTTOM))
       = [Some 470, Some 330, Some 330, Some 190, Some 470, Some 190]"
    by code_simp
  with layout_round_trip [of codeUnitCompare scenarioA "[ZIG_ZAG, TOP_BOTTOM]" ZIG_ZAG]
  show ?thesis by simp
qed

section \<open>The traversal\<close>

text \<open>The level stored in the node that \<open>nodeMap\<close> holds for an identifier.\<close>

definition lev :: "(jsstring \<rightharpoonup> nat) \<Rightarrow> FlowchartNode list \<Rightarrow> jsstring \<Rightarrow> nat" where
  "lev m ns nid = (case m nid of None \<Rightarrow> 0 | Some i \<Rightarrow> levelOr0 (ns ! i))"

text \<open>
  The invariant of the loop. The queue holds each identifier once, all of them visited;
  every visited identifier has a node; \<open>nodeMap\<close> maps an identifier to a node that has it.
\<close>

definition invA ::
  "(jsstring \<rightharpoonup> nat) \<Rightarrow> (jsstring \<times> nat) list \<Rightarrow> jsstring set \<Rightarrow> FlowchartNode list \<Rightarrow> bool" where
  "invA m q v ns \<longleftrightarrow>
     distinct (map fst q) \<and> fst ` set q \<subseteq> v \<and> v \<subseteq> dom m
     \<and> (\<forall>nid i. m nid = Some i \<longrightarrow> i < length ns \<and> node_id (ns ! i) = nid)"

text \<open>A node whose level is not 0 has been dequeued.\<close>

definition invB :: "(jsstring \<times> nat) list \<Rightarrow> jsstring set \<Rightarrow> FlowchartNode list \<Rightarrow> bool" where
  "invB q v ns \<longleftrightarrow>
     (\<forall>i<length ns. levelOr0 (ns ! i) \<noteq> 0 \<longrightarrow> node_id (ns ! i) \<in> v - fst ` set q)"

text \<open>
  A discovery \<open>(a, b)\<close>: \<open>a\<close> has been dequeued, and \<open>b\<close> either waits in the queue with
  the level of \<open>a\<close> plus one, or has been dequeued and has that level.
\<close>

definition invC ::
  "FlowchartEdge list \<Rightarrow> (jsstring \<rightharpoonup> nat) \<Rightarrow> (jsstring \<times> nat) list \<Rightarrow> jsstring set
     \<Rightarrow> FlowchartNode list \<Rightarrow> (jsstring \<times> jsstring) list \<Rightarrow> bool" where
  "invC es m q v ns disc \<longleftrightarrow>
     (\<forall>(a, b) \<in> set disc.
        (a, b) \<in> edgeRel es \<and> a \<in> v - fst ` set q \<and> b \<in> v
        \<and> (case map_of q b of
             Some l \<Rightarrow> l = lev m ns a + 1
           | None \<Rightarrow> lev m ns b = lev m ns a + 1))"

text \<open>Every visited identifier is reachable from the start.\<close>

definition invD :: "FlowchartEdge list \<Rightarrow> jsstring \<Rightarrow> jsstring set \<Rightarrow> bool" where
  "invD es start v \<longleftrightarrow> (\<forall>b\<in>v. (start, b) \<in> (edgeRel es)\<^sup>*)"

text \<open>The start node is visited, waits with level 0, and keeps level 0.\<close>

definition invE ::
  "(jsstring \<rightharpoonup> nat) \<Rightarrow> jsstring \<Rightarrow> (jsstring \<times> nat) list \<Rightarrow> jsstring set
     \<Rightarrow> FlowchartNode list \<Rightarrow> bool" where
  "invE m start q v ns \<longleftrightarrow>
     start \<in> v \<and> lev m ns start = 0 \<and> (\<forall>l. (start, l) \<in> set q \<longrightarrow> l = 0)"

definition bfsInv ::
  "FlowchartEdge list \<Rightarrow> (jsstring \<rightharpoonup> nat) \<Rightarrow> jsstring
     \<Rightarrow> ((jsstring \<times> nat) list \<times> jsstring set \<times> FlowchartNode list)
         \<times> (jsstring \<times> jsstring) list \<Rightarrow> bool" where
  "bfsInv es m start s =
     (case s of ((q, v, ns), disc) \<Rightarrow>
        invA m q v ns \<and> invB q v ns \<and> invC es m q v ns disc \<and> invD es start v
        \<and> invE m start q v ns \<and> list_all hasLevel ns)"

subsection \<open>One edge of the inner loop\<close>

lemma visitEdgeT_old:
  "edge_target e \<in> v \<Longrightarrow> visitEdgeT nid level ((v, q), disc) e = ((v, q), disc)"
  by (simp add: visitEdgeT_def visitEdge_def)

lemma visitEdgeT_new:
  "edge_target e \<notin> v \<Longrightarrow>
     visitEdgeT nid level ((v, q), disc) e
       = ((insert (edge_target e) v, q @ [(edge_target e, level + 1)]),
          disc @ [(nid, edge_target e)])"
  by (simp add: visitEdgeT_def visitEdge_def)

lemma map_of_snoc_other: "b \<noteq> t \<Longrightarrow> map_of (q @ [(t, l)]) b = map_of q b"
  by (simp add: map_add_def split: option.splits)

lemma map_of_snoc_new: "t \<notin> fst ` set q \<Longrightarrow> map_of (q @ [(t, l)]) t = Some l"
proof -
  assume "t \<notin> fst ` set q"
  then have "map_of q t = None"
    by (simp add: map_of_eq_None_iff)
  then show ?thesis
    by (simp add: map_add_def)
qed

lemma invA_new:
  assumes "invA m q v ns" and "t \<notin> v" and "t \<in> dom m"
  shows "invA m (q @ [(t, l)]) (insert t v) ns"
  using assms unfolding invA_def by auto

lemma invB_new:
  assumes "invB q v ns" and "t \<notin> v"
  shows "invB (q @ [(t, l)]) (insert t v) ns"
  using assms unfolding invB_def by auto

lemma invC_new:
  assumes C: "invC es m q v ns disc" and A: "invA m q v ns" and t: "t \<notin> v"
    and nid: "nid \<in> v" "nid \<notin> fst ` set q" and l: "lev m ns nid = level"
    and e: "(nid, t) \<in> edgeRel es"
  shows "invC es m (q @ [(t, level + 1)]) (insert t v) ns (disc @ [(nid, t)])"
  unfolding invC_def
proof (intro ballI, clarify)
  fix a b assume "(a, b) \<in> set (disc @ [(nid, t)])"
  then consider (old) "(a, b) \<in> set disc" | (new) "a = nid" "b = t"
    by auto
  then show "(a, b) \<in> edgeRel es
      \<and> a \<in> insert t v - fst ` set (q @ [(t, level + 1)]) \<and> b \<in> insert t v
      \<and> (case map_of (q @ [(t, level + 1)]) b of
            Some l \<Rightarrow> l = lev m ns a + 1
          | None \<Rightarrow> lev m ns b = lev m ns a + 1)"
  proof cases
    case old
    with C have ab: "(a, b) \<in> edgeRel es" and a: "a \<in> v - fst ` set q" and b: "b \<in> v"
      and c: "case map_of q b of Some l \<Rightarrow> l = lev m ns a + 1
              | None \<Rightarrow> lev m ns b = lev m ns a + 1"
      unfolding invC_def by auto
    from a b t have "a \<noteq> t" "b \<noteq> t" by auto
    from \<open>b \<noteq> t\<close> have eq: "map_of (q @ [(t, level + 1)]) b = map_of q b"
      by (rule map_of_snoc_other)
    from ab a b c \<open>a \<noteq> t\<close> show ?thesis
      unfolding eq by auto
  next
    case new
    from A t have "t \<notin> fst ` set q"
      unfolding invA_def by auto
    then have eq: "map_of (q @ [(t, level + 1)]) t = Some (level + 1)"
      by (rule map_of_snoc_new)
    from new nid t l e show ?thesis
      unfolding new eq by auto
  qed
qed

lemma invE_new:
  assumes "invE m start q v ns" and "t \<notin> v"
  shows "invE m start (q @ [(t, l)]) (insert t v) ns"
  using assms unfolding invE_def by auto

lemma invD_new:
  assumes "invD es start v" and "nid \<in> v" and "(nid, t) \<in> edgeRel es"
  shows "invD es start (insert t v)"
  using assms unfolding invD_def by (auto intro: rtrancl_into_rtrancl)

subsection \<open>The inner loop\<close>

definition bfsMid ::
  "FlowchartEdge list \<Rightarrow> (jsstring \<rightharpoonup> nat) \<Rightarrow> jsstring \<Rightarrow> jsstring \<Rightarrow> nat \<Rightarrow> FlowchartNode list
     \<Rightarrow> (jsstring set \<times> (jsstring \<times> nat) list) \<times> (jsstring \<times> jsstring) list \<Rightarrow> bool" where
  "bfsMid es m start nid level ns s =
     (case s of ((v, q), disc) \<Rightarrow>
        invA m q v ns \<and> invB q v ns \<and> invC es m q v ns disc \<and> invD es start v
        \<and> invE m start q v ns \<and> nid \<in> v \<and> nid \<notin> fst ` set q \<and> lev m ns nid = level)"

lemma visitEdgeT_mid:
  assumes mid: "bfsMid es m start nid level ns s"
    and e: "(nid, edge_target e) \<in> edgeRel es" "edge_target e \<in> dom m"
  shows "bfsMid es m start nid level ns (visitEdgeT nid level s e)"
proof -
  obtain v q disc where s: "s = ((v, q), disc)"
    by (metis surj_pair)
  from mid have A: "invA m q v ns" and B: "invB q v ns" and C: "invC es m q v ns disc"
    and D: "invD es start v" and E: "invE m start q v ns" and n: "nid \<in> v" "nid \<notin> fst ` set q" and l: "lev m ns nid = level"
    unfolding bfsMid_def s by simp_all
  show ?thesis
  proof (cases "edge_target e \<in> v")
    case True
    with mid show ?thesis
      by (simp add: s visitEdgeT_old)
  next
    case False
    let ?t = "edge_target e"
    from False n have ne: "nid \<noteq> ?t" by auto
    have "nid \<notin> fst ` set (q @ [(?t, level + 1)])"
      using n ne by auto
    with invA_new [OF A False e(2)] invB_new [OF B False] invC_new [OF C A False n l e(1)]
      invD_new [OF D n(1) e(1)] invE_new [OF E False] n(1) l
    show ?thesis
      unfolding s visitEdgeT_new [OF False] bfsMid_def by simp
  qed
qed

lemma foldl_visitEdgeT_mid:
  assumes "bfsMid es m start nid level ns s"
    and "\<forall>e \<in> set out. (nid, edge_target e) \<in> edgeRel es \<and> edge_target e \<in> dom m"
  shows "bfsMid es m start nid level ns (foldl (visitEdgeT nid level) s out)"
  using assms
proof (induction out arbitrary: s)
  case Nil
  then show ?case by simp
next
  case (Cons e out)
  from Cons.prems have "bfsMid es m start nid level ns (visitEdgeT nid level s e)"
    by (intro visitEdgeT_mid) simp_all
  with Cons.IH Cons.prems(2) show ?case
    by simp
qed

subsection \<open>Dequeuing a node\<close>

lemma length_setLevel: "length (setLevel m nid l ns) = length ns"
  by (simp add: setLevel_def split: option.splits)

lemma node_id_setLevel: "map node_id (setLevel m nid l ns) = map node_id ns"
  by (simp add: setLevel_def map_update_same split: option.splits)

lemma nth_node_id_setLevel:
  "j < length ns \<Longrightarrow> node_id (setLevel m nid l ns ! j) = node_id (ns ! j)"
  using node_id_setLevel [of m nid l ns]
  by (metis length_map length_setLevel nth_map)

lemma setLevel_nth_same:
  "m nid = Some i \<Longrightarrow> i < length ns \<Longrightarrow>
     levelOr0 (setLevel m nid l ns ! i) = max (levelOr0 (ns ! i)) l"
  by (simp add: setLevel_def levelOr0_def)

lemma setLevel_nth_other:
  "m nid = Some i \<Longrightarrow> j \<noteq> i \<Longrightarrow> setLevel m nid l ns ! j = ns ! j"
  by (simp add: setLevel_def)

lemma bfsInv_dequeue:
  assumes inv: "bfsInv es m start (((nid, level) # rest, v, ns), disc)"
  shows "bfsMid es m start nid level (setLevel m nid level ns) ((v, rest), disc)"
    and "list_all hasLevel (setLevel m nid level ns)"
proof -
  let ?q = "(nid, level) # rest"
  let ?ns = "setLevel m nid level ns"
  from inv have A: "invA m ?q v ns" and B: "invB ?q v ns" and C: "invC es m ?q v ns disc"
    and D: "invD es start v" and E: "invE m start ?q v ns" and H: "list_all hasLevel ns"
    unfolding bfsInv_def by simp_all
  from A have dq: "nid \<notin> fst ` set rest" "distinct (map fst rest)"
    and sub: "fst ` set rest \<subseteq> v" and nv: "nid \<in> v" and vm: "v \<subseteq> dom m"
    and cons: "\<And>a k. m a = Some k \<Longrightarrow> k < length ns \<and> node_id (ns ! k) = a"
    unfolding invA_def by auto
  from nv vm obtain i where mi: "m nid = Some i" by auto
  with cons have i: "i < length ns" and idi: "node_id (ns ! i) = nid" by auto
  have zero: "levelOr0 (ns ! i) = 0"
  proof (rule ccontr)
    assume "levelOr0 (ns ! i) \<noteq> 0"
    with B i have "node_id (ns ! i) \<in> v - fst ` set ?q"
      unfolding invB_def by blast
    with idi show False by simp
  qed
  have li: "levelOr0 (?ns ! i) = level"
    using setLevel_nth_same [of m nid i ns level] mi i zero by simp
  have other: "?ns ! j = ns ! j" if "j \<noteq> i" for j
    using setLevel_nth_other [of m nid i j level ns] mi that by simp
  have lev_nid: "lev m ?ns nid = level"
    by (simp add: lev_def mi li)
  have lev_other: "lev m ?ns a = lev m ns a" if "a \<noteq> nid" "a \<in> dom m" for a
  proof -
    from that obtain k where k: "m a = Some k" by auto
    with cons have "node_id (ns ! k) = a" by auto
    with idi that have "k \<noteq> i" by auto
    with k show ?thesis
      by (simp add: lev_def other)
  qed
  have A': "invA m rest v ?ns"
    unfolding invA_def
    using dq sub vm cons by (auto simp: length_setLevel nth_node_id_setLevel)
  have B': "invB rest v ?ns"
    unfolding invB_def
  proof (intro allI impI)
    fix j assume j: "j < length ?ns" and nz: "levelOr0 (?ns ! j) \<noteq> 0"
    then have j': "j < length ns" by (simp add: length_setLevel)
    show "node_id (?ns ! j) \<in> v - fst ` set rest"
    proof (cases "j = i")
      case True
      with nv dq idi i show ?thesis
        by (simp add: nth_node_id_setLevel)
    next
      case False
      with nz have "levelOr0 (ns ! j) \<noteq> 0" by (simp add: other)
      with B j' have "node_id (ns ! j) \<in> v - fst ` set ?q"
        unfolding invB_def by blast
      with j' show ?thesis
        by (auto simp: nth_node_id_setLevel)
    qed
  qed
  have C': "invC es m rest v ?ns disc"
    unfolding invC_def
  proof (intro ballI, clarify)
    fix a b assume ab: "(a, b) \<in> set disc"
    with C have e: "(a, b) \<in> edgeRel es" and a: "a \<in> v - fst ` set ?q" and b: "b \<in> v"
      and c: "case map_of ?q b of Some l \<Rightarrow> l = lev m ns a + 1
              | None \<Rightarrow> lev m ns b = lev m ns a + 1"
      unfolding invC_def by auto
    from a vm have "a \<noteq> nid" "a \<in> dom m" by auto
    then have la: "lev m ?ns a = lev m ns a" by (rule lev_other)
    show "(a, b) \<in> edgeRel es \<and> a \<in> v - fst ` set rest \<and> b \<in> v
        \<and> (case map_of rest b of Some l \<Rightarrow> l = lev m ?ns a + 1
            | None \<Rightarrow> lev m ?ns b = lev m ?ns a + 1)"
    proof (cases "b = nid")
      case True
      from dq have "map_of rest nid = None"
        by (simp add: map_of_eq_None_iff)
      with True c e a b lev_nid la show ?thesis
        by simp
    next
      case False
      with b vm have "lev m ?ns b = lev m ns b"
        by (intro lev_other) auto
      with False c e a b la show ?thesis
        by (auto split: option.splits)
    qed
  qed
  have E': "invE m start rest v ?ns"
  proof (cases "start = nid")
    case True
    with E have "level = 0"
      unfolding invE_def by simp
    with True E lev_nid dq show ?thesis
      unfolding invE_def by auto
  next
    case False
    with E vm have "lev m ?ns start = lev m ns start"
      unfolding invE_def by (intro lev_other) auto
    with E show ?thesis
      unfolding invE_def by auto
  qed
  from A' B' C' D E' nv dq lev_nid
  show "bfsMid es m start nid level ?ns ((v, rest), disc)"
    unfolding bfsMid_def by simp
  from H show "list_all hasLevel ?ns"
    by (rule setLevel_hasLevel)
qed

subsection \<open>The whole loop\<close>

lemma bfsMid_bfsInv:
  "bfsMid es m start nid level ns ((v, q), disc) \<Longrightarrow> list_all hasLevel ns
     \<Longrightarrow> bfsInv es m start ((q, v, ns), disc)"
  by (simp add: bfsMid_def bfsInv_def)

lemma bfsTrace_inv:
  "(\<forall>e \<in> set es. edge_target e \<in> dom m) \<Longrightarrow> bfsInv es m start s
     \<Longrightarrow> bfsInv es m start (bfsTrace es m s) \<and> fst (fst (bfsTrace es m s)) = []"
proof (induction es m s rule: bfsTrace.induct)
  case (1 edges nodeMap visited nodes disc)
  then show ?case by simp
next
  case (2 edges nodeMap nid level rest visited nodes disc)
  let ?out = "filter (\<lambda>e. edge_source e = nid) edges"
  let ?ns = "setLevel nodeMap nid level nodes"
  obtain v' q' disc' where f:
    "foldl (visitEdgeT nid level) ((visited, rest), disc) ?out = ((v', q'), disc')"
    by (metis surj_pair)
  have out: "\<forall>e \<in> set ?out. (nid, edge_target e) \<in> edgeRel edges \<and> edge_target e \<in> dom nodeMap"
    using "2.prems"(1) by (auto simp: edgeRel_def image_iff)
  from bfsInv_dequeue [OF "2.prems"(2)]
  have mid: "bfsMid edges nodeMap start nid level ?ns ((visited, rest), disc)"
    and h: "list_all hasLevel ?ns"
    by simp_all
  from foldl_visitEdgeT_mid [OF mid out] f
  have "bfsMid edges nodeMap start nid level ?ns ((v', q'), disc')"
    by simp
  then have "bfsInv edges nodeMap start ((q', v', ?ns), disc')"
    using h by (rule bfsMid_bfsInv)
  with "2.IH" [OF refl refl refl f [symmetric] refl "2.prems"(1)] f show ?case
    by simp
qed

subsection \<open>The state before the loop\<close>

lemma indexNodes_Some:
  "indexNodes k ns m nid = Some i \<Longrightarrow>
     m nid = Some i \<or> (k \<le> i \<and> i < k + length ns \<and> node_id (ns ! (i - k)) = nid)"
proof (induction ns arbitrary: k m)
  case Nil
  then show ?case by simp
next
  case (Cons n ns)
  from Cons.prems have "indexNodes (Suc k) ns (m(node_id n \<mapsto> k)) nid = Some i"
    by simp
  from Cons.IH [OF this]
  consider "(m(node_id n \<mapsto> k)) nid = Some i"
    | "Suc k \<le> i" "i < Suc k + length ns" "node_id (ns ! (i - Suc k)) = nid"
    by blast
  then show ?case
  proof cases
    case 1
    then show ?thesis
      by (cases "nid = node_id n") auto
  next
    case 2
    then have "i - k = Suc (i - Suc k)" by simp
    with 2 show ?thesis by simp
  qed
qed

lemma dom_indexNodes: "dom (indexNodes k ns m) = dom m \<union> node_id ` set ns"
  by (induction ns arbitrary: k m) auto

lemma startNodeId_mem: "ns \<noteq> [] \<Longrightarrow> startNodeId ns es \<in> node_id ` set ns"
  by (auto simp: startNodeId_def Let_def find_Some_iff split: option.splits)

lemma levelOr0_resetLevels: "i < length ns \<Longrightarrow> levelOr0 (resetLevels ns ! i) = 0"
  by (simp add: resetLevels_def levelOr0_def)

lemma bfsInv_init:
  assumes "ns \<noteq> []"
  shows "bfsInv es (indexNodes 0 (resetLevels ns) Map.empty) (startNodeId (resetLevels ns) es)
           (([(startNodeId (resetLevels ns) es, 0)], {startNodeId (resetLevels ns) es},
             resetLevels ns), [])"
proof -
  define ns0 where "ns0 = resetLevels ns"
  define m where "m = indexNodes 0 ns0 Map.empty"
  define start where "start = startNodeId ns0 es"
  have len: "length ns0 = length ns"
    by (simp add: ns0_def resetLevels_def)
  with assms(1) have "ns0 \<noteq> []" by auto
  then have "start \<in> node_id ` set ns0"
    unfolding start_def by (rule startNodeId_mem)
  then have sd: "start \<in> dom m"
    by (simp add: m_def dom_indexNodes)
  have cons: "i < length ns0 \<and> node_id (ns0 ! i) = nid" if "m nid = Some i" for nid i
    using indexNodes_Some [of 0 ns0 Map.empty nid i] that by (simp add: m_def)
  have zero: "levelOr0 (ns0 ! i) = 0" if "i < length ns0" for i
    using that len by (simp add: ns0_def levelOr0_resetLevels)
  have A: "invA m [(start, 0)] {start} ns0"
    unfolding invA_def using sd cons by auto
  have B: "invB [(start, 0)] {start} ns0"
    unfolding invB_def using zero by simp
  have C: "invC es m [(start, 0)] {start} ns0 []"
    unfolding invC_def by simp
  have D: "invD es start {start}"
    unfolding invD_def by simp
  from sd obtain i where "m start = Some i" by auto
  with cons zero have "lev m ns0 start = 0"
    by (simp add: lev_def)
  then have E: "invE m start [(start, 0)] {start} ns0"
    unfolding invE_def by simp
  have H: "list_all hasLevel ns0"
    by (simp add: ns0_def resetLevels_def list_all_iff hasLevel_def)
  from A B C D E H show ?thesis
    unfolding bfsInv_def ns0_def [symmetric] m_def [symmetric] start_def [symmetric] by simp
qed

lemma reachable_rtrancl: "reachable es a b \<longleftrightarrow> (a, b) \<in> (edgeRel es)\<^sup>*"
  by (auto simp: reachable_def rtrancl_eq_or_trancl)

lemma sanitizeEdges_targets:
  "\<forall>e \<in> set (sanitizeEdges ns es). edge_target e \<in> node_id ` set ns"
  by (simp add: sanitizeEdges_keepsEdge keepsEdge_def)

lemma assignLevels_bfsInv:
  assumes ne: "ns \<noteq> []" and tg: "\<forall>e \<in> set es. edge_target e \<in> node_id ` set ns"
  shows "\<exists>V. bfsInv es (indexNodes 0 (resetLevels ns) Map.empty) (startNodeId (resetLevels ns) es)
               (([], V, assignLevels ns es), discoveries ns es)"
proof -
  let ?ns0 = "resetLevels ns"
  let ?m = "indexNodes 0 ?ns0 Map.empty"
  let ?start = "startNodeId ?ns0 es"
  let ?init = "([(?start, 0)], {?start}, ?ns0)"
  let ?r = "bfsTrace es ?m (?init, [])"
  have "node_id ` set ?ns0 = node_id ` set ns"
    by (simp add: resetLevels_def image_image)
  with tg have tg': "\<forall>e \<in> set es. edge_target e \<in> dom ?m"
    by (simp add: dom_indexNodes)
  from bfsTrace_inv [OF tg' bfsInv_init [OF ne]]
  have inv: "bfsInv es ?m ?start ?r" and q: "fst (fst ?r) = []"
    by simp_all
  have "fst ?r = bfsLoop es ?m ?init"
    by (rule bfsTrace_erase)
  then have L: "snd (snd (fst ?r)) = assignLevels ns es"
    by (simp add: assignLevels_unfold)
  have d: "snd ?r = discoveries ns es"
    by (simp add: discoveries_def Let_def)
  obtain q' V L' disc' where r: "?r = ((q', V, L'), disc')"
    by (metis surj_pair)
  with q L d have "?r = (([], V, assignLevels ns es), discoveries ns es)"
    by simp
  with inv show ?thesis
    by (metis (no_types, lifting))
qed

lemma node_level_setXY: "node_level (n\<lparr>node_x := a, node_y := b\<rparr>) = node_level n"
  by simp

lemma node_id_setXY: "node_id (n\<lparr>node_x := a, node_y := b\<rparr>) = node_id n"
  by simp

lemma applyLayout_node_level: "map node_level (applyLayout lc d ns) = map node_level ns"
  by (simp add: applyLayout_def placeTopBottom_def Let_def placeSnake_applyXY placeRows_applyXY
      applyXY_map)

lemma applyLayout_node_id: "map node_id (applyLayout lc d ns) = map node_id ns"
  by (simp add: applyLayout_def placeTopBottom_def Let_def placeSnake_applyXY placeRows_applyXY
      applyXY_map)

lemma assignLevels_node_id: "map node_id (assignLevels ns es) = map node_id ns"
  using assignLevels_frame [of ns es] by (rule frame_node_id)

lemma computeLayout_bfs:
  assumes ne: "data_nodes data \<noteq> []"
  shows "\<forall>(u, v) \<in> set (discoveringEdges data).
           (u, v) \<in> edgeRel (data_edges (computeLayout lc data d))
           \<and> (\<exists>l. levelOf (data_nodes (computeLayout lc data d)) u = Some l
                  \<and> levelOf (data_nodes (computeLayout lc data d)) v = Some (Suc l))"
    and "\<forall>i < length (data_nodes (computeLayout lc data d)).
           \<not> reachable (data_edges (computeLayout lc data d)) (bfsRoot data)
                (node_id (data_nodes (computeLayout lc data d) ! i))
           \<longrightarrow> node_level (data_nodes (computeLayout lc data d) ! i) = Some 0"
    and "levelOf (data_nodes (computeLayout lc data d)) (bfsRoot data) = Some 0"
proof -
  define ns where "ns = data_nodes data"
  define es where "es = sanitizeEdges ns (data_edges data)"
  define L where "L = assignLevels ns es"
  define P where "P = applyLayout lc d L"
  define m where "m = indexNodes 0 (resetLevels ns) Map.empty"
  define start where "start = startNodeId (resetLevels ns) es"
  define disc where "disc = discoveries ns es"
  from ne have out: "computeLayout lc data d = \<lparr>data_nodes = P, data_edges = es\<rparr>"
    by (simp add: computeLayout_def Let_def ns_def es_def L_def P_def)
  have root: "bfsRoot data = start"
    by (simp add: bfsRoot_def start_def ns_def es_def)
  from ne have de: "discoveringEdges data = disc"
    by (simp add: discoveringEdges_def disc_def ns_def es_def)
  from ne have ne': "ns \<noteq> []" by (simp add: ns_def)
  have "\<forall>e \<in> set es. edge_target e \<in> node_id ` set ns"
    unfolding es_def by (rule sanitizeEdges_targets)
  from assignLevels_bfsInv [OF ne' this]
  obtain V where inv: "bfsInv es m start (([], V, L), disc)"
    unfolding m_def start_def L_def disc_def by blast
  then have A: "invA m [] V L" and B: "invB [] V L" and C: "invC es m [] V L disc"
    and D: "invD es start V" and E: "invE m start [] V L" and H: "list_all hasLevel L"
    unfolding bfsInv_def by simp_all
  have ids: "map node_id P = map node_id (resetLevels ns)"
    by (simp add: P_def L_def applyLayout_node_id assignLevels_node_id resetLevels_def)
  have idL: "map node_id P = map node_id L"
    by (simp add: P_def applyLayout_node_id)
  have lvs: "map node_level P = map node_level L"
    by (simp add: P_def applyLayout_node_level)
  then have len: "length P = length L"
    by (rule map_eq_imp_length_eq)
  have mO: "indexNodes 0 P Map.empty = m"
    unfolding m_def by (rule indexNodes_cong [OF ids])
  have nl: "node_level (P ! i) = Some (levelOr0 (L ! i))" if "i < length L" for i
  proof -
    from lvs that len have "node_level (P ! i) = node_level (L ! i)"
      by (metis nth_map)
    moreover from H that have "hasLevel (L ! i)"
      by (simp add: list_all_length)
    ultimately show ?thesis
      by (auto simp: hasLevel_def levelOr0_def)
  qed
  have lo: "levelOf P nid = Some (lev m L nid)" if "nid \<in> V" for nid
  proof -
    from A that obtain i where i: "m nid = Some i" "i < length L"
      unfolding invA_def by blast
    with nl [of i] show ?thesis
      by (simp add: levelOf_def mO lev_def)
  qed
  show "\<forall>(u, v) \<in> set (discoveringEdges data).
           (u, v) \<in> edgeRel (data_edges (computeLayout lc data d))
           \<and> (\<exists>l. levelOf (data_nodes (computeLayout lc data d)) u = Some l
                  \<and> levelOf (data_nodes (computeLayout lc data d)) v = Some (Suc l))"
    unfolding out de
  proof (intro ballI, clarify)
    fix u v assume "(u, v) \<in> set disc"
    with C have "(u, v) \<in> edgeRel es" "u \<in> V" "v \<in> V" "lev m L v = lev m L u + 1"
      unfolding invC_def by auto
    with lo [of u] lo [of v]
    show "(u, v) \<in> edgeRel (data_edges \<lparr>data_nodes = P, data_edges = es\<rparr>)
        \<and> (\<exists>l. levelOf (data_nodes \<lparr>data_nodes = P, data_edges = es\<rparr>) u = Some l
               \<and> levelOf (data_nodes \<lparr>data_nodes = P, data_edges = es\<rparr>) v = Some (Suc l))"
      by simp
  qed
  show "\<forall>i < length (data_nodes (computeLayout lc data d)).
           \<not> reachable (data_edges (computeLayout lc data d)) (bfsRoot data)
                (node_id (data_nodes (computeLayout lc data d) ! i))
           \<longrightarrow> node_level (data_nodes (computeLayout lc data d) ! i) = Some 0"
    unfolding out root
  proof (intro allI impI)
    fix i
    assume i: "i < length (data_nodes \<lparr>data_nodes = P, data_edges = es\<rparr>)"
      and nr: "\<not> reachable (data_edges \<lparr>data_nodes = P, data_edges = es\<rparr>) start
                 (node_id (data_nodes \<lparr>data_nodes = P, data_edges = es\<rparr> ! i))"
    from i len have iL: "i < length L" by simp
    with idL len have idi: "node_id (P ! i) = node_id (L ! i)"
      by (metis nth_map)
    have "levelOr0 (L ! i) = 0"
    proof (rule ccontr)
      assume "levelOr0 (L ! i) \<noteq> 0"
      with B iL have "node_id (L ! i) \<in> V"
        unfolding invB_def by blast
      with D have "(start, node_id (L ! i)) \<in> (edgeRel es)\<^sup>*"
        unfolding invD_def by blast
      with nr idi show False
        by (simp add: reachable_rtrancl)
    qed
    with nl [OF iL]
    show "node_level (data_nodes \<lparr>data_nodes = P, data_edges = es\<rparr> ! i) = Some 0"
      by simp
  qed
  from E have "start \<in> V" "lev m L start = 0"
    unfolding invE_def by simp_all
  with lo [of start]
  show "levelOf (data_nodes (computeLayout lc data d)) (bfsRoot data) = Some 0"
    unfolding out root by simp
qed

text \<open>
  C2. After \<open>computeLayout\<close>, for every discovering edge \<open>(u, v)\<close> of the traversal, an
  edge of the sanitized graph, the level of \<open>v\<close> is the level of \<open>u\<close> plus one; and every
  node that no path of edges reaches from the root has level 0.
\<close>

theorem bfs_leveling:
  "let out = computeLayout lc data direction
   in (\<forall>(u, v) \<in> set (discoveringEdges data).
         (u, v) \<in> edgeRel (data_edges out)
         \<and> (\<exists>l. levelOf (data_nodes out) u = Some l
                \<and> levelOf (data_nodes out) v = Some (l + 1)))
      \<and> (\<forall>i < length (data_nodes out).
           \<not> reachable (data_edges out) (bfsRoot data) (node_id (data_nodes out ! i))
           \<longrightarrow> node_level (data_nodes out ! i) = Some 0)"
proof (cases "data_nodes data = []")
  case True
  then show ?thesis
    by (simp add: discoveringEdges_def computeLayout_def)
next
  case False
  from computeLayout_bfs(1,2) [OF False, of lc direction] show ?thesis
    unfolding Let_def by simp
qed

theorem bfs_leveling_witness:
  "data_nodes scenarioA \<noteq> []
   \<and> discoveringEdges scenarioA
       = [(js ''S'', js ''A''), (js ''A'', js ''B''), (js ''B'', js ''C''), (js ''B'', js ''D'')]
   \<and> (let out = computeLayout codeUnitCompare scenarioA TOP_BOTTOM
      in levelOf (data_nodes out) (js ''B'') = Some 2
         \<and> levelOf (data_nodes out) (js ''C'') = Some 3
         \<and> node_id (data_nodes out ! 5) = js ''E''
         \<and> \<not> reachable (data_edges out) (bfsRoot scenarioA) (js ''E'')
         \<and> node_level (data_nodes out ! 5) = Some 0)"
proof -
  let ?out = "computeLayout codeUnitCompare scenarioA TOP_BOTTOM"
  have ne: "data_nodes scenarioA \<noteq> []"
    by (simp add: scenarioA_def)
  have d: "discoveringEdges scenarioA
       = [(js ''S'', js ''A''), (js ''A'', js ''B''), (js ''B'', js ''C''), (js ''B'', js ''D'')]"
    by code_simp
  have b: "levelOf (data_nodes ?out) (js ''B'') = Some 2"
    by code_simp
  have e: "5 < length (data_nodes ?out)" "node_id (data_nodes ?out ! 5) = js ''E''"
    by code_simp+
  have nr: "\<not> reachable (data_edges ?out) (bfsRoot scenarioA) (js ''E'')"
    by code_simp
  from bfs_leveling [of codeUnitCompare scenarioA TOP_BOTTOM]
  have 1: "\<forall>(u, v) \<in> set (discoveringEdges scenarioA).
             \<exists>l. levelOf (data_nodes ?out) u = Some l \<and> levelOf (data_nodes ?out) v = Some (l + 1)"
    and 2: "\<forall>i < length (data_nodes ?out).
             \<not> reachable (data_edges ?out) (bfsRoot scenarioA) (node_id (data_nodes ?out ! i))
             \<longrightarrow> node_level (data_nodes ?out ! i) = Some 0"
    unfolding Let_def by auto
  from 1 have "\<exists>l. levelOf (data_nodes ?out) (js ''B'') = Some l
      \<and> levelOf (data_nodes ?out) (js ''C'') = Some (l + 1)"
    unfolding d by simp
  with b have c: "levelOf (data_nodes ?out) (js ''C'') = Some 3"
    by auto
  from 2 e nr have "node_level (data_nodes ?out ! 5) = Some 0"
    by metis
  with ne d b c e nr show ?thesis
    unfolding Let_def by simp
qed

section \<open>The root\<close>

lemma bfsRoot_found:
  assumes i: "i < length ns" and id: "node_id (ns ! i) \<noteq> []"
    and free: "node_id (ns ! i) \<notin> set (map edge_target es)"
    and before: "\<forall>j<i. node_id (ns ! j) \<in> set (map edge_target es)"
  shows "startNodeId (resetLevels ns) es = node_id (ns ! i)"
proof -
  let ?ns0 = "resetLevels ns"
  let ?P = "\<lambda>n. node_id n \<notin> set (map edge_target es)"
  have nth: "node_id (?ns0 ! j) = node_id (ns ! j)" if "j < length ns" for j
    using that by (simp add: resetLevels_def)
  have len: "length ?ns0 = length ns"
    by (simp add: resetLevels_def)
  have "find ?P ?ns0 = Some (?ns0 ! i)"
    unfolding find_Some_iff
  proof (intro exI [of _ i] conjI allI impI)
    show "i < length ?ns0" using i len by simp
    show "?P (?ns0 ! i)" using free i by (simp add: nth)
    show "?ns0 ! i = ?ns0 ! i" ..
    fix j assume "j < i"
    with before i show "\<not> ?P (?ns0 ! j)" by (simp add: nth)
  qed
  then show ?thesis
    using id i by (simp add: startNodeId_def Let_def nth)
qed

subsection \<open>The root, when no identifier is empty\<close>

lemma bfsRoot_nonempty_ids:
  assumes ne: "data_nodes data \<noteq> []" and ids: "\<forall>n \<in> set (data_nodes data). node_id n \<noteq> []"
  shows "bfsRoot data
      = (case find (\<lambda>n. node_id n \<notin> set (map edge_target
                      (sanitizeEdges (data_nodes data) (data_edges data)))) (data_nodes data) of
           None \<Rightarrow> node_id (hd (data_nodes data))
         | Some n \<Rightarrow> node_id n)"
proof -
  let ?ns = "data_nodes data"
  let ?T = "set (map edge_target (sanitizeEdges ?ns (data_edges data)))"
  have m: "map node_id (resetLevels ?ns) = map node_id ?ns"
    by (simp add: resetLevels_def)
  have f: "map_option node_id (find (\<lambda>n. node_id n \<notin> ?T) (resetLevels ?ns))
      = map_option node_id (find (\<lambda>n. node_id n \<notin> ?T) ?ns)"
    using find_node_id [of "\<lambda>i. i \<notin> ?T" "resetLevels ?ns"] find_node_id [of "\<lambda>i. i \<notin> ?T" ?ns]
    by (simp only: m)
  from ne have h: "node_id (hd (resetLevels ?ns)) = node_id (hd ?ns)"
    by (cases ?ns) (simp_all add: resetLevels_def)
  have r: "bfsRoot data
      = (case map_option node_id (find (\<lambda>n. node_id n \<notin> ?T) ?ns) of
           None \<Rightarrow> node_id (hd ?ns)
         | Some i \<Rightarrow> if i \<noteq> [] then i else node_id (hd ?ns))"
    by (simp only: bfsRoot_def startNodeId_alt f h)
  show ?thesis
  proof (cases "find (\<lambda>n. node_id n \<notin> ?T) ?ns")
    case None
    then show ?thesis
      unfolding r by simp
  next
    case (Some n)
    then have "n \<in> set ?ns"
      by (auto simp: find_Some_iff)
    with ids have "node_id n \<noteq> []" by blast
    with Some show ?thesis
      unfolding r by simp
  qed
qed

subsection \<open>The root and the sanitized edges\<close>

text \<open>
  C10. The root is looked for among the edges that sanitization keeps: a node with a
  non-empty identifier, all of whose incoming edges are dropped, while every node listed
  before it is the target of an edge that is kept, is the root, and ends with level 0.
\<close>

theorem root_on_sanitized_edges:
  assumes "data_nodes data \<noteq> []"
    and "i < length (data_nodes data)"
    and "node_id (data_nodes data ! i) \<noteq> []"
    and "\<forall>e \<in> set (data_edges data).
           edge_target e = node_id (data_nodes data ! i) \<longrightarrow> \<not> keepsEdge (data_nodes data) e"
    and "\<forall>j<i. \<exists>e \<in> set (data_edges data).
           keepsEdge (data_nodes data) e \<and> edge_target e = node_id (data_nodes data ! j)"
  shows "bfsRoot data = node_id (data_nodes data ! i)
         \<and> levelOf (data_nodes (computeLayout lc data direction)) (node_id (data_nodes data ! i))
             = Some 0"
proof -
  let ?ns = "data_nodes data"
  let ?es = "sanitizeEdges ?ns (data_edges data)"
  from assms(4) have free: "node_id (?ns ! i) \<notin> set (map edge_target ?es)"
    by (auto simp: sanitizeEdges_keepsEdge)
  from assms(5) have before: "\<forall>j<i. node_id (?ns ! j) \<in> set (map edge_target ?es)"
    by (force simp: sanitizeEdges_keepsEdge image_iff)
  have "bfsRoot data = node_id (?ns ! i)"
    unfolding bfsRoot_def by (rule bfsRoot_found [OF assms(2,3) free before])
  with computeLayout_bfs(3) [OF assms(1), of lc direction] show ?thesis
    by simp
qed

theorem root_on_sanitized_edges_witness:
  "data_nodes ghostEdgeGraph \<noteq> []
   \<and> node_id (data_nodes ghostEdgeGraph ! 2) = js ''X''
   \<and> mkEdge ''D'' ''X'' None \<in> set (data_edges ghostEdgeGraph)
   \<and> data_edges (computeLayout codeUnitCompare ghostEdgeGraph TOP_BOTTOM)
       = [mkEdge ''X'' ''A'' None, mkEdge ''A'' ''D'' None]
   \<and> bfsRoot ghostEdgeGraph = js ''X''
   \<and> levelOf (data_nodes (computeLayout codeUnitCompare ghostEdgeGraph TOP_BOTTOM)) (js ''X'')
       = Some 0
   \<and> map node_level (data_nodes (computeLayout codeUnitCompare ghostEdgeGraph TOP_BOTTOM))
       = [Some 1, Some 2, Some 0]"
proof -
  let ?g = ghostEdgeGraph
  have ne: "data_nodes ?g \<noteq> []" and i: "2 < length (data_nodes ?g)"
    by (simp_all add: ghostEdgeGraph_def)
  have x: "node_id (data_nodes ?g ! 2) = js ''X''"
    by code_simp
  have nonempty: "node_id (data_nodes ?g ! 2) \<noteq> []"
    by code_simp
  have dropped: "\<forall>e \<in> set (data_edges ?g).
      edge_target e = node_id (data_nodes ?g ! 2) \<longrightarrow> \<not> keepsEdge (data_nodes ?g) e"
    by code_simp
  have before: "\<forall>j<2. \<exists>e \<in> set (data_edges ?g).
      keepsEdge (data_nodes ?g) e \<and> edge_target e = node_id (data_nodes ?g ! j)"
  proof (intro allI impI)
    fix j :: nat assume "j < 2"
    then consider "j = 0" | "j = 1" by linarith
    then show "\<exists>e \<in> set (data_edges ?g).
        keepsEdge (data_nodes ?g) e \<and> edge_target e = node_id (data_nodes ?g ! j)"
    proof cases
      case 1
      have "\<exists>e \<in> set (data_edges ?g).
          keepsEdge (data_nodes ?g) e \<and> edge_target e = node_id (data_nodes ?g ! 0)"
        by code_simp
      with 1 show ?thesis by simp
    next
      case 2
      have "\<exists>e \<in> set (data_edges ?g).
          keepsEdge (data_nodes ?g) e \<and> edge_target e = node_id (data_nodes ?g ! 1)"
        by code_simp
      with 2 show ?thesis by simp
    qed
  qed
  have ev: "mkEdge ''D'' ''X'' None \<in> set (data_edges ?g)
      \<and> data_edges (computeLayout codeUnitCompare ?g TOP_BOTTOM)
          = [mkEdge ''X'' ''A'' None, mkEdge ''A'' ''D'' None]
      \<and> map node_level (data_nodes (computeLayout codeUnitCompare ?g TOP_BOTTOM))
          = [Some 1, Some 2, Some 0]"
    by code_simp
  from root_on_sanitized_edges [OF ne i nonempty dropped before, of codeUnitCompare TOP_BOTTOM]
    ne x ev
  show ?thesis by simp
qed

text \<open>
  C3. The root is the first node, in listing order, that no edge targets, or the first
  node when every node is a target. Here the first node that no edge targets is the
  second one, whose identifier is the empty string; the root is the first node, which an
  edge targets.
\<close>

theorem root_inference_empty_id:
  "map node_id (data_nodes emptyIdGraph) = [js ''a'', []]
   \<and> map edge_target (data_edges (computeLayout codeUnitCompare emptyIdGraph TOP_BOTTOM))
       = [js ''a'']
   \<and> find (\<lambda>n. node_id n \<notin> set (map edge_target
                (data_edges (computeLayout codeUnitCompare emptyIdGraph TOP_BOTTOM))))
         (data_nodes emptyIdGraph)
       = Some (mkNode '''' RECTANGLE)
   \<and> bfsRoot emptyIdGraph = js ''a''
   \<and> discoveringEdges emptyIdGraph = []
   \<and> map node_level (data_nodes (computeLayout codeUnitCompare emptyIdGraph TOP_BOTTOM))
       = [Some 0, Some 0]"
  by code_simp

end
